theory Spec2Isabelle
  imports Main "HOL-Library.AList"
begin

section \<open>Data model\<close>

text \<open>
  A handle name as JavaScript holds it: an edge read from the editor state or built by
  \<^verbatim>\<open>onNodesDelete\<close> may have no \<^verbatim>\<open>sourceHandle\<close>/\<^verbatim>\<open>targetHandle\<close> at all
  (\<open>Undefined\<close>), a connection reports a handle without id as \<^verbatim>\<open>null\<close>.
\<close>

datatype handle = Undefined | Null | Str string

record Edge =
  edge_id :: string
  source :: string
  target :: string
  sourceHandle :: handle
  targetHandle :: handle

record Connection =
  conn_source :: "string option"
  conn_sourceHandle :: handle
  conn_target :: "string option"
  conn_targetHandle :: handle

datatype NodeType = SERVICE_NODE_TYPE | HOOK_NODE_TYPE

text \<open>
  A node; \<open>data_id\<close> is \<^verbatim>\<open>node.data.id\<close>, absent on the service node
  (\<^verbatim>\<open>data: {}\<close>). The position of a node plays no part in what follows. The two
  node type constants belong to components that are not part of the sources; they are
  taken to be different.
\<close>

record Node =
  node_id :: string
  node_type :: NodeType
  data_id :: "string option"

definition SERVICE_ID :: string where
  "SERVICE_ID = ''service''"

definition initialNodes :: "Node list" where
  "initialNodes = [\<lparr>node_id = SERVICE_ID, node_type = SERVICE_NODE_TYPE, data_id = None\<rparr>]"

datatype error = CircularConnection

section \<open>Tree: the ancestry and descent generators\<close>

definition ancestor :: "Edge list \<Rightarrow> Edge \<Rightarrow> Edge option" where
  "ancestor edges connection =
     List.find (\<lambda>edge. source edge \<noteq> SERVICE_ID \<and> target edge = source connection) edges"

definition descendant :: "Edge list \<Rightarrow> Edge \<Rightarrow> Edge option" where
  "descendant edges connection =
     List.find (\<lambda>edge. target edge \<noteq> SERVICE_ID \<and> source edge = target connection) edges"

text \<open>
  \<^verbatim>\<open>visited\<close> is a plain object \<^verbatim>\<open>{}\<close> used as a set of edge ids. Reading
  \<^verbatim>\<open>visited[id]\<close> also finds what the object inherits from \<^verbatim>\<open>Object.prototype\<close>,
  and every inherited property is truthy: an edge whose id is one of these names
  counts as visited from the start.
\<close>

definition objectPrototypeKeys :: "string list" where
  "objectPrototypeKeys =
     [''constructor'', ''__defineGetter__'', ''__defineSetter__'', ''hasOwnProperty'',
      ''__lookupGetter__'', ''__lookupSetter__'', ''isPrototypeOf'',
      ''propertyIsEnumerable'', ''toString'', ''valueOf'', ''__proto__'',
      ''toLocaleString'']"

definition visited_has :: "string set \<Rightarrow> string \<Rightarrow> bool" where
  "visited_has visited k \<longleftrightarrow> k \<in> visited \<or> k \<in> set objectPrototypeKeys"

definition findNode :: "Node list \<Rightarrow> string \<Rightarrow> Node option" where
  "findNode nodes k = List.find (\<lambda>node. node_id node = k) nodes"

text \<open>
  The body of the \<^verbatim>\<open>while (currentConnection)\<close> loop of \<^verbatim>\<open>ancestry\<close>. A run of the
  generator is the list of the pairs it yields, in order, together with how it ends:
  \<open>None\<close> when the loop runs out of connections, \<open>Some CircularConnection\<close> when it
  throws.
\<close>

function ancestry_loop ::
  "Edge list \<Rightarrow> Node list \<Rightarrow> string set \<Rightarrow> Edge option \<Rightarrow> (Node option \<times> Edge) list \<times> error option"
where
  "ancestry_loop edges nodes visited None = ([], None)"
| "ancestry_loop edges nodes visited (Some c) =
     (if visited_has visited (edge_id c) then ([], Some CircularConnection)
      else (case ancestry_loop edges nodes (insert (edge_id c) visited) (ancestor edges c) of
              (ys, r) \<Rightarrow> ((findNode nodes (source c), c) # ys, r)))"
  by pat_completeness auto
termination
proof (relation "measure (\<lambda>(edges, nodes, visited, cur).
          card (edge_id ` set edges - visited) +
          (case cur of None \<Rightarrow> 0 | Some c \<Rightarrow> if c \<in> set edges then 0 else 1))")
  show "wf (measure (\<lambda>(edges, nodes, visited, cur).
          card (edge_id ` set edges - visited) +
          (case cur of None \<Rightarrow> 0 | Some c \<Rightarrow> if c \<in> set edges then 0 else (1::nat))))"
    by simp
next
  fix edges :: "Edge list" and nodes :: "Node list" and visited and c :: Edge
  assume nv: "\<not> visited_has visited (edge_id c)"
  let ?ids = "edge_id ` set edges"
  have fresh: "edge_id c \<notin> visited" using nv by (simp add: visited_has_def)
  have nxt: "(case ancestor edges c of None \<Rightarrow> 0 | Some d \<Rightarrow> if d \<in> set edges then 0 else (1::nat)) = 0"
    by (auto simp: ancestor_def find_Some_iff split: option.splits)
  have le: "card (?ids - insert (edge_id c) visited) \<le> card (?ids - visited)"
    by (rule card_mono) auto
  have lt: "c \<in> set edges \<Longrightarrow> card (?ids - insert (edge_id c) visited) < card (?ids - visited)"
    by (rule psubset_card_mono) (use fresh in auto)
  show "((edges, nodes, insert (edge_id c) visited, ancestor edges c), (edges, nodes, visited, Some c))
        \<in> measure (\<lambda>(edges, nodes, visited, cur).
          card (edge_id ` set edges - visited) +
          (case cur of None \<Rightarrow> 0 | Some c \<Rightarrow> if c \<in> set edges then 0 else 1))"
    using nxt le lt by (cases "c \<in> set edges") auto
qed

definition ancestry :: "Edge list \<Rightarrow> Node list \<Rightarrow> string \<Rightarrow> (Node option \<times> Edge) list \<times> error option" where
  "ancestry edges nodes targetHandle' =
     ancestry_loop edges nodes {} (List.find (\<lambda>edge. targetHandle edge = Str targetHandle') edges)"

function descent_loop ::
  "Edge list \<Rightarrow> Node list \<Rightarrow> string set \<Rightarrow> Edge option \<Rightarrow> (Node option \<times> Edge) list \<times> error option"
where
  "descent_loop edges nodes visited None = ([], None)"
| "descent_loop edges nodes visited (Some c) =
     (if visited_has visited (edge_id c) then ([], Some CircularConnection)
      else (case descent_loop edges nodes (insert (edge_id c) visited) (descendant edges c) of
              (ys, r) \<Rightarrow> ((findNode nodes (target c), c) # ys, r)))"
  by pat_completeness auto
termination
proof (relation "measure (\<lambda>(edges, nodes, visited, cur).
          card (edge_id ` set edges - visited) +
          (case cur of None \<Rightarrow> 0 | Some c \<Rightarrow> if c \<in> set edges then 0 else 1))")
  show "wf (measure (\<lambda>(edges, nodes, visited, cur).
          card (edge_id ` set edges - visited) +
          (case cur of None \<Rightarrow> 0 | Some c \<Rightarrow> if c \<in> set edges then 0 else (1::nat))))"
    by simp
next
  fix edges :: "Edge list" and nodes :: "Node list" and visited and c :: Edge
  assume nv: "\<not> visited_has visited (edge_id c)"
  let ?ids = "edge_id ` set edges"
  have fresh: "edge_id c \<notin> visited" using nv by (simp add: visited_has_def)
  have nxt: "(case descendant edges c of None \<Rightarrow> 0 | Some d \<Rightarrow> if d \<in> set edges then 0 else (1::nat)) = 0"
    by (auto simp: descendant_def find_Some_iff split: option.splits)
  have le: "card (?ids - insert (edge_id c) visited) \<le> card (?ids - visited)"
    by (rule card_mono) auto
  have lt: "c \<in> set edges \<Longrightarrow> card (?ids - insert (edge_id c) visited) < card (?ids - visited)"
    by (rule psubset_card_mono) (use fresh in auto)
  show "((edges, nodes, insert (edge_id c) visited, descendant edges c), (edges, nodes, visited, Some c))
        \<in> measure (\<lambda>(edges, nodes, visited, cur).
          card (edge_id ` set edges - visited) +
          (case cur of None \<Rightarrow> 0 | Some c \<Rightarrow> if c \<in> set edges then 0 else 1))"
    using nxt le lt by (cases "c \<in> set edges") auto
qed

definition descent :: "Edge list \<Rightarrow> Node list \<Rightarrow> string \<Rightarrow> (Node option \<times> Edge) list \<times> error option" where
  "descent edges nodes sourceHandle' =
     descent_loop edges nodes {} (List.find (\<lambda>edge. sourceHandle edge = Str sourceHandle') edges)"


section \<open>Resolving the hooks\<close>

text \<open>
  A hook is the array \<^verbatim>\<open>[node?.data.id]\<close>. The configuration is the object
  \<^verbatim>\<open>{after: {}, before: {}}\<close> filled method by method; objects are kept as association
  lists in the order of their keys, which is the order \<^verbatim>\<open>JSON.stringify\<close> prints them
  in. \<^verbatim>\<open>METHODS\<close> belongs to a module that is not part of the sources and is a
  parameter (method names are taken not to be array indices, whose keys JavaScript
  would order numerically).
\<close>

type_synonym Hook = "string option list"

type_synonym HooksConfig = "(string \<times> (string \<times> Hook list) list) list"

definition hookOf :: "Node option \<Rightarrow> Hook" where
  "hookOf node = [case node of None \<Rightarrow> None | Some n \<Rightarrow> data_id n]"

text \<open>The handle names \<^verbatim>\<open>`before-${method}`\<close> and \<^verbatim>\<open>`after-${method}`\<close>.\<close>

definition beforeHandle :: "string \<Rightarrow> string" where
  "beforeHandle method = ''before-'' @ method"

definition afterHandle :: "string \<Rightarrow> string" where
  "afterHandle method = ''after-'' @ method"

definition beforeHooks :: "Edge list \<Rightarrow> Node list \<Rightarrow> string \<Rightarrow> error + Hook list" where
  "beforeHooks edges nodes method =
     (case ancestry edges nodes (beforeHandle method) of
        (ys, Some err) \<Rightarrow> Inl err
      | (ys, None) \<Rightarrow> Inr (rev (map (\<lambda>(node, c). hookOf node) ys)))"

definition afterHooks :: "Edge list \<Rightarrow> Node list \<Rightarrow> string \<Rightarrow> error + Hook list" where
  "afterHooks edges nodes method =
     (case descent edges nodes (afterHandle method) of
        (ys, Some err) \<Rightarrow> Inl err
      | (ys, None) \<Rightarrow> Inr (map (\<lambda>(node, c). hookOf node) ys))"

definition set_hooks :: "string \<Rightarrow> string \<Rightarrow> Hook list \<Rightarrow> HooksConfig \<Rightarrow> HooksConfig" where
  "set_hooks phase method hooks serviceHooks =
     AList.map_entry phase (AList.update method hooks) serviceHooks"

fun resolve_loop :: "Edge list \<Rightarrow> Node list \<Rightarrow> string list \<Rightarrow> HooksConfig \<Rightarrow> error + HooksConfig" where
  "resolve_loop edges nodes [] serviceHooks = Inr serviceHooks"
| "resolve_loop edges nodes (method # methods) serviceHooks =
     (case beforeHooks edges nodes method of
        Inl err \<Rightarrow> Inl err
      | Inr b \<Rightarrow>
          (case afterHooks edges nodes method of
             Inl err \<Rightarrow> Inl err
           | Inr a \<Rightarrow>
               resolve_loop edges nodes methods
                 (set_hooks ''after'' method a (set_hooks ''before'' method b serviceHooks))))"

definition resolveHooks :: "string list \<Rightarrow> Edge list \<Rightarrow> Node list \<Rightarrow> error + HooksConfig" where
  "resolveHooks METHODS edges nodes =
     resolve_loop edges nodes METHODS [(''after'', []), (''before'', [])]"

record EditorState =
  st_nodes :: "Node list"
  st_edges :: "Edge list"
  currentHooks :: "HooksConfig option"
  existingHooks :: "HooksConfig option"

text \<open>
  The effect that resolves the hooks: \<^verbatim>\<open>setCurrentHooks\<close> is reached only when no
  traversal threw; the \<^verbatim>\<open>catch\<close> logs and leaves the state as it was.
\<close>

definition resolveEffect :: "string list \<Rightarrow> EditorState \<Rightarrow> EditorState" where
  "resolveEffect METHODS st =
     (case resolveHooks METHODS (st_edges st) (st_nodes st) of
        Inl err \<Rightarrow> st
      | Inr serviceHooks \<Rightarrow> st\<lparr>currentHooks := Some serviceHooks\<rparr>)"

definition lookupHooks :: "HooksConfig \<Rightarrow> string \<Rightarrow> string \<Rightarrow> Hook list option" where
  "lookupHooks cfg phase method =
     (case map_of cfg phase of None \<Rightarrow> None | Some obj \<Rightarrow> map_of obj method)"

section \<open>The change detector\<close>

text \<open>
  \<^verbatim>\<open>JSON.stringify\<close> on a hooks configuration: strings are quoted with the escapes of
  ECMAScript's QuoteJSONString, \<^verbatim>\<open>undefined\<close> inside an array prints as \<^verbatim>\<open>null\<close>, the
  properties of an object print in key order, and \<^verbatim>\<open>JSON.stringify(undefined)\<close> is
  \<^verbatim>\<open>undefined\<close> (\<open>None\<close>).
\<close>

definition hex_digit :: "nat \<Rightarrow> char" where
  "hex_digit n = ''0123456789abcdef'' ! (n mod 16)"

definition quote_char :: "char \<Rightarrow> string" where
  "quote_char c =
     (if c = CHR 0x22 then [CHR 0x5C, CHR 0x22]
      else if c = CHR 0x5C then [CHR 0x5C, CHR 0x5C]
      else if c = CHR 0x08 then [CHR 0x5C, CHR ''b'']
      else if c = CHR 0x0C then [CHR 0x5C, CHR ''f'']
      else if c = CHR 0x0A then [CHR 0x5C, CHR ''n'']
      else if c = CHR 0x0D then [CHR 0x5C, CHR ''r'']
      else if c = CHR 0x09 then [CHR 0x5C, CHR ''t'']
      else if of_char c < (32::nat)
        then [CHR 0x5C, CHR ''u'', CHR ''0'', CHR ''0'',
              hex_digit (of_char c div 16), hex_digit (of_char c)]
      else [c])"

definition quoteJSONString :: "string \<Rightarrow> string" where
  "quoteJSONString s = CHR 0x22 # concat (map quote_char s) @ [CHR 0x22]"

fun join :: "string \<Rightarrow> string list \<Rightarrow> string" where
  "join sep [] = []"
| "join sep [x] = x"
| "join sep (x # y # ys) = x @ sep @ join sep (y # ys)"

definition stringify_array :: "('a \<Rightarrow> string) \<Rightarrow> 'a list \<Rightarrow> string" where
  "stringify_array f xs = ''['' @ join '','' (map f xs) @ '']''"

definition stringify_object :: "('a \<Rightarrow> string) \<Rightarrow> (string \<times> 'a) list \<Rightarrow> string" where
  "stringify_object f kvs =
     ''{'' @ join '','' (map (\<lambda>(k, v). quoteJSONString k @ '':'' @ f v) kvs) @ ''}''"

definition stringify_hook_id :: "string option \<Rightarrow> string" where
  "stringify_hook_id x = (case x of None \<Rightarrow> ''null'' | Some s \<Rightarrow> quoteJSONString s)"

definition stringify_config :: "HooksConfig \<Rightarrow> string" where
  "stringify_config =
     stringify_object (stringify_object (stringify_array (stringify_array stringify_hook_id)))"

definition JSON_stringify :: "HooksConfig option \<Rightarrow> string option" where
  "JSON_stringify v = map_option stringify_config v"

definition hooksChanged :: "HooksConfig option \<Rightarrow> HooksConfig option \<Rightarrow> bool" where
  "hooksChanged currentHooks' existingHooks' \<longleftrightarrow>
     JSON_stringify currentHooks' \<noteq> JSON_stringify existingHooks'"

section \<open>The graph store: connecting and deleting\<close>

text \<open>
  \<^verbatim>\<open>addEdge\<close>, \<^verbatim>\<open>getIncomers\<close>, \<^verbatim>\<open>getOutgoers\<close>, \<^verbatim>\<open>getConnectedEdges\<close> and
  \<^verbatim>\<open>applyNodeChanges\<close> are functions of the reactflow library (version 11), which is
  not part of the sources; they are written here as that library defines them.
  \<^verbatim>\<open>addEdge\<close> returns the edges as they are when the connection has no source or no
  target or when an edge with the same endpoints and handles is present, and otherwise
  appends the connection as an edge whose id is made of its endpoints and handles.
\<close>

definition orEmpty :: "handle \<Rightarrow> string" where
  "orEmpty h = (case h of Str s \<Rightarrow> s | _ \<Rightarrow> [])"

definition falsy :: "handle \<Rightarrow> bool" where
  "falsy h \<longleftrightarrow> orEmpty h = []"

definition getEdgeId :: "string \<Rightarrow> handle \<Rightarrow> string \<Rightarrow> handle \<Rightarrow> string" where
  "getEdgeId s sh t th = ''reactflow__edge-'' @ s @ orEmpty sh @ ''-'' @ t @ orEmpty th"

definition connectionExists :: "Edge \<Rightarrow> Edge list \<Rightarrow> bool" where
  "connectionExists edge edges \<longleftrightarrow>
     list_ex (\<lambda>el. source el = source edge \<and> target el = target edge \<and>
        (sourceHandle el = sourceHandle edge \<or> (falsy (sourceHandle el) \<and> falsy (sourceHandle edge))) \<and>
        (targetHandle el = targetHandle edge \<or> (falsy (targetHandle el) \<and> falsy (targetHandle edge))))
      edges"

definition addEdge :: "Connection \<Rightarrow> Edge list \<Rightarrow> Edge list" where
  "addEdge edgeParams edges =
     (case (conn_source edgeParams, conn_target edgeParams) of
        (Some s, Some t) \<Rightarrow>
          if s = [] \<or> t = [] then edges
          else
            (let edge = \<lparr>edge_id = getEdgeId s (conn_sourceHandle edgeParams) t (conn_targetHandle edgeParams),
                         source = s, target = t,
                         sourceHandle = conn_sourceHandle edgeParams,
                         targetHandle = conn_targetHandle edgeParams\<rparr>
             in if connectionExists edge edges then edges else edges @ [edge])
      | _ \<Rightarrow> edges)"

text \<open>What a template literal makes of a handle and of a nullable string.\<close>

definition interpolate :: "handle \<Rightarrow> string" where
  "interpolate h = (case h of Undefined \<Rightarrow> ''undefined'' | Null \<Rightarrow> ''null'' | Str s \<Rightarrow> s)"

definition interpolate_opt :: "string option \<Rightarrow> string" where
  "interpolate_opt x = (case x of None \<Rightarrow> ''null'' | Some s \<Rightarrow> s)"

definition onConnect :: "Connection \<Rightarrow> Edge list \<Rightarrow> Edge list" where
  "onConnect connection edges =
     addEdge connection
       (filter (\<lambda>edge.
          if conn_source connection = Some SERVICE_ID
          then sourceHandle edge \<noteq> conn_sourceHandle connection
          else target edge @ ''-'' @ interpolate (targetHandle edge) \<noteq>
               interpolate_opt (conn_target connection) @ ''-'' @
               interpolate (conn_targetHandle connection))
        edges)"

definition getIncomers :: "Node \<Rightarrow> Node list \<Rightarrow> Edge list \<Rightarrow> Node list" where
  "getIncomers node nodes edges =
     (let incomersIds = map source (filter (\<lambda>e. target e = node_id node) edges)
      in filter (\<lambda>n. node_id n \<in> set incomersIds) nodes)"

definition getOutgoers :: "Node \<Rightarrow> Node list \<Rightarrow> Edge list \<Rightarrow> Node list" where
  "getOutgoers node nodes edges =
     (let outgoerIds = map target (filter (\<lambda>e. source e = node_id node) edges)
      in filter (\<lambda>n. node_id n \<in> set outgoerIds) nodes)"

definition getConnectedEdges :: "Node list \<Rightarrow> Edge list \<Rightarrow> Edge list" where
  "getConnectedEdges ns edges =
     (let nodeIds = map node_id ns
      in filter (\<lambda>edge. source edge \<in> set nodeIds \<or> target edge \<in> set nodeIds) edges)"

definition createdEdge :: "string \<Rightarrow> string \<Rightarrow> Edge" where
  "createdEdge s t =
     \<lparr>edge_id = s @ ''->'' @ t, source = s, target = t,
      sourceHandle = Undefined, targetHandle = Undefined\<rparr>"

definition createdEdges :: "Node list \<Rightarrow> Node list \<Rightarrow> Edge list" where
  "createdEdges incomers outgoers =
     concat (map (\<lambda>i. map (\<lambda>out. createdEdge (node_id i) (node_id out)) outgoers) incomers)"

text \<open>
  One step of the \<^verbatim>\<open>reduce\<close> of \<^verbatim>\<open>onNodesDelete\<close>. \<^verbatim>\<open>connectedEdges.includes(edge)\<close>
  compares objects by identity, and \<^verbatim>\<open>connectedEdges\<close> holds objects of the state
  array \<^verbatim>\<open>edges\<close> only: an element of the accumulator carries \<open>True\<close> when it is an
  object of that array and \<open>False\<close> when an earlier step built it.
\<close>

definition deleteStep :: "Node list \<Rightarrow> Edge list \<Rightarrow> (bool \<times> Edge) list \<Rightarrow> Node \<Rightarrow> (bool \<times> Edge) list" where
  "deleteStep nodes edges acc node =
     (let incomers = getIncomers node nodes edges;
          outgoers = getOutgoers node nodes edges;
          connectedEdges = getConnectedEdges [node] edges;
          remainingEdges = filter (\<lambda>(orig, edge). \<not> (orig \<and> edge \<in> set connectedEdges)) acc;
          created = createdEdges incomers outgoers
      in remainingEdges @ map (Pair False) created)"

definition onNodesDelete :: "Node list \<Rightarrow> Node list \<Rightarrow> Edge list \<Rightarrow> Edge list" where
  "onNodesDelete deleted nodes edges =
     map snd (foldl (deleteStep nodes edges) (map (Pair True) edges) deleted)"

text \<open>\<^verbatim>\<open>applyNodeChanges\<close> on the \<^verbatim>\<open>remove\<close> changes of the deleted nodes.\<close>

definition removeNodes :: "Node list \<Rightarrow> Node list \<Rightarrow> Node list" where
  "removeNodes deleted nodes = filter (\<lambda>n. node_id n \<notin> set (map node_id deleted)) nodes"

definition addHook :: "string \<Rightarrow> string \<Rightarrow> Node list \<Rightarrow> Node list" where
  "addHook hookId randomStr nodes =
     nodes @ [\<lparr>node_id = randomStr, node_type = HOOK_NODE_TYPE, data_id = Some hookId\<rparr>]"

text \<open>
  The structural operations on the editor state. Deleting nodes runs \<^verbatim>\<open>onNodesDelete\<close>
  on the nodes and edges of the current render and hands the \<^verbatim>\<open>remove\<close> changes to
  \<^verbatim>\<open>onNodesChange\<close>; \<^verbatim>\<open>AddHook\<close> carries the hook id and the string \<^verbatim>\<open>randomStr()\<close>
  returned. The effect that resolves the hooks runs after every change.
\<close>

datatype Op = Connect Connection | AddHook string string | DeleteNodes "Node list"

fun structural :: "Op \<Rightarrow> EditorState \<Rightarrow> EditorState" where
  "structural (Connect connection) st = st\<lparr>st_edges := onConnect connection (st_edges st)\<rparr>"
| "structural (AddHook hookId randomStr) st = st\<lparr>st_nodes := addHook hookId randomStr (st_nodes st)\<rparr>"
| "structural (DeleteNodes deleted) st =
     st\<lparr>st_nodes := removeNodes deleted (st_nodes st),
        st_edges := onNodesDelete deleted (st_nodes st) (st_edges st)\<rparr>"

definition applyOp :: "string list \<Rightarrow> EditorState \<Rightarrow> Op \<Rightarrow> EditorState" where
  "applyOp METHODS st op = resolveEffect METHODS (structural op st)"

definition applyOps :: "string list \<Rightarrow> EditorState \<Rightarrow> Op list \<Rightarrow> EditorState" where
  "applyOps METHODS st ops = foldl (applyOp METHODS) st ops"

definition initialState :: EditorState where
  "initialState = \<lparr>st_nodes = initialNodes, st_edges = [], currentHooks = None, existingHooks = None\<rparr>"


section \<open>The two loops read as one\<close>

text \<open>
  \<^verbatim>\<open>ancestry\<close> and \<open>descent\<close> are the same loop up to the exchange of source and
  target. \<open>walk src tgt\<close> is that loop with the two selectors as parameters;
  \<open>chain\<close> says that a list of edges is the complete sequence of connections
  the loop goes through, \<open>path\<close> that it is a beginning of it.
\<close>

definition step :: "(Edge \<Rightarrow> string) \<Rightarrow> (Edge \<Rightarrow> string) \<Rightarrow> Edge list \<Rightarrow> Edge \<Rightarrow> Edge option" where
  "step src tgt E c = List.find (\<lambda>e. src e \<noteq> SERVICE_ID \<and> tgt e = src c) E"

function walk ::
  "(Edge \<Rightarrow> string) \<Rightarrow> (Edge \<Rightarrow> string) \<Rightarrow> Edge list \<Rightarrow> Node list \<Rightarrow> string set \<Rightarrow> Edge option
   \<Rightarrow> (Node option \<times> Edge) list \<times> error option"
where
  "walk src tgt E N v None = ([], None)"
| "walk src tgt E N v (Some c) =
     (if visited_has v (edge_id c) then ([], Some CircularConnection)
      else (case walk src tgt E N (insert (edge_id c) v) (step src tgt E c) of
              (ys, r) \<Rightarrow> ((findNode N (src c), c) # ys, r)))"
  by pat_completeness auto
termination
proof (relation "measure (\<lambda>(src, tgt, E, N, v, cur).
          card (edge_id ` set E - v) +
          (case cur of None \<Rightarrow> 0 | Some c \<Rightarrow> if c \<in> set E then 0 else 1))")
  show "wf (measure (\<lambda>(src :: Edge \<Rightarrow> string, tgt :: Edge \<Rightarrow> string, E, N :: Node list, v, cur).
          card (edge_id ` set E - v) +
          (case cur of None \<Rightarrow> 0 | Some c \<Rightarrow> if c \<in> set E then 0 else (1::nat))))"
    by simp
next
  fix src tgt :: "Edge \<Rightarrow> string" and E :: "Edge list" and N :: "Node list" and v and c :: Edge
  assume nv: "\<not> visited_has v (edge_id c)"
  let ?ids = "edge_id ` set E"
  have fresh: "edge_id c \<notin> v" using nv by (simp add: visited_has_def)
  have nxt: "(case step src tgt E c of None \<Rightarrow> 0 | Some d \<Rightarrow> if d \<in> set E then 0 else (1::nat)) = 0"
    by (auto simp: step_def find_Some_iff split: option.splits)
  have le: "card (?ids - insert (edge_id c) v) \<le> card (?ids - v)"
    by (rule card_mono) auto
  have lt: "c \<in> set E \<Longrightarrow> card (?ids - insert (edge_id c) v) < card (?ids - v)"
    by (rule psubset_card_mono) (use fresh in auto)
  show "((src, tgt, E, N, insert (edge_id c) v, step src tgt E c), (src, tgt, E, N, v, Some c))
        \<in> measure (\<lambda>(src, tgt, E, N, v, cur).
          card (edge_id ` set E - v) +
          (case cur of None \<Rightarrow> 0 | Some c \<Rightarrow> if c \<in> set E then 0 else 1))"
    using nxt le lt by (cases "c \<in> set E") auto
qed

fun chain :: "(Edge \<Rightarrow> Edge option) \<Rightarrow> Edge option \<Rightarrow> Edge list \<Rightarrow> bool" where
  "chain nx None es = (es = [])"
| "chain nx (Some c) [] = False"
| "chain nx (Some c) (e # es) = (e = c \<and> chain nx (nx c) es)"

fun path :: "(Edge \<Rightarrow> Edge option) \<Rightarrow> Edge option \<Rightarrow> Edge list \<Rightarrow> bool" where
  "path nx cur [] = True"
| "path nx None (e # es) = False"
| "path nx (Some c) (e # es) = (e = c \<and> path nx (nx c) es)"

section \<open>The walks of the chain resolver, as the specification words them\<close>

text \<open>
  ``The edge'' such that \<open>Q\<close>: where several edges of the graph qualify, the first
  of them in the edge list. The before walk of a method starts at the edge that ends
  at the service port \<^verbatim>\<open>before-M\<close>, goes from an edge to the edge that ends at its
  source node and does not leave the service node, and stops where there is none. The
  after walk is its mirror image.
\<close>

definition first_edge :: "Edge list \<Rightarrow> (Edge \<Rightarrow> bool) \<Rightarrow> Edge \<Rightarrow> bool" where
  "first_edge E Q e \<longleftrightarrow> List.find Q E = Some e"

definition no_edge :: "Edge list \<Rightarrow> (Edge \<Rightarrow> bool) \<Rightarrow> bool" where
  "no_edge E Q \<longleftrightarrow> (\<forall>e\<in>set E. \<not> Q e)"

definition at_before_port :: "string \<Rightarrow> Edge \<Rightarrow> bool" where
  "at_before_port M e \<longleftrightarrow> target e = SERVICE_ID \<and> targetHandle e = Str (beforeHandle M)"

definition at_after_port :: "string \<Rightarrow> Edge \<Rightarrow> bool" where
  "at_after_port M e \<longleftrightarrow> source e = SERVICE_ID \<and> sourceHandle e = Str (afterHandle M)"

definition precedes :: "Edge \<Rightarrow> Edge \<Rightarrow> bool" where
  "precedes e x \<longleftrightarrow> source x \<noteq> SERVICE_ID \<and> target x = source e"

definition follows :: "Edge \<Rightarrow> Edge \<Rightarrow> bool" where
  "follows e x \<longleftrightarrow> target x \<noteq> SERVICE_ID \<and> source x = target e"

fun back_steps :: "Edge list \<Rightarrow> Edge list \<Rightarrow> bool" where
  "back_steps E (e # e' # ws) = (first_edge E (precedes e) e' \<and> back_steps E (e' # ws))"
| "back_steps E ws = True"

fun forward_steps :: "Edge list \<Rightarrow> Edge list \<Rightarrow> bool" where
  "forward_steps E (e # e' # ws) = (first_edge E (follows e) e' \<and> forward_steps E (e' # ws))"
| "forward_steps E ws = True"

definition before_walk :: "Edge list \<Rightarrow> string \<Rightarrow> Edge list \<Rightarrow> bool" where
  "before_walk E M ws \<longleftrightarrow>
     (case ws of
        [] \<Rightarrow> no_edge E (at_before_port M)
      | e0 # ws' \<Rightarrow> first_edge E (at_before_port M) e0 \<and> back_steps E ws \<and>
                  no_edge E (precedes (last ws)))"

definition after_walk :: "Edge list \<Rightarrow> string \<Rightarrow> Edge list \<Rightarrow> bool" where
  "after_walk E M ws \<longleftrightarrow>
     (case ws of
        [] \<Rightarrow> no_edge E (at_after_port M)
      | e0 # ws' \<Rightarrow> first_edge E (at_after_port M) e0 \<and> forward_steps E ws \<and>
                  no_edge E (follows (last ws)))"

text \<open>
  The port model: the port names \<^verbatim>\<open>before-M\<close> and \<^verbatim>\<open>after-M\<close> are ports of the
  service node, so an edge that carries one of them ends, or starts, there. (Which
  handles a node offers is decided by the node components, which are not part of the
  sources.)
\<close>

definition service_ports :: "Edge list \<Rightarrow> string \<Rightarrow> bool" where
  "service_ports E M \<longleftrightarrow>
     (\<forall>e\<in>set E. (targetHandle e = Str (beforeHandle M) \<longrightarrow> target e = SERVICE_ID) \<and>
                 (sourceHandle e = Str (afterHandle M) \<longrightarrow> source e = SERVICE_ID))"

text \<open>
  The arcs of the graph that join two units, and the acyclic graphs: those in which
  these arcs form no cycle. The edges at the service node are left out because no walk
  goes through the service node; a graph whose edges form no cycle at all is acyclic in
  this sense.
\<close>

definition unit_arcs :: "Edge list \<Rightarrow> (string \<times> string) set" where
  "unit_arcs E =
     set (map (\<lambda>e. (source e, target e))
            (filter (\<lambda>e. source e \<noteq> SERVICE_ID \<and> target e \<noteq> SERVICE_ID) E))"

definition acyclic_graph :: "Edge list \<Rightarrow> bool" where
  "acyclic_graph E \<longleftrightarrow> acyclic (unit_arcs E)"

text \<open>
  Edges are identified by their ids: two edges with the same id join the same nodes.
  And no edge id is the name of a property that the object \<^verbatim>\<open>visited\<close> inherits.
  (Edge ids are made from node ids and handle names, which \<^verbatim>\<open>randomStr\<close> and the node
  components provide; neither is part of the sources.)
\<close>

definition identified :: "Edge list \<Rightarrow> bool" where
  "identified E \<longleftrightarrow>
     (\<forall>e\<in>set E. edge_id e \<notin> set objectPrototypeKeys \<and>
        (\<forall>e'\<in>set E. edge_id e' = edge_id e \<longrightarrow> source e' = source e \<and> target e' = target e))"

text \<open>
  The before walk of \<open>M\<close> runs into a cycle: a beginning of that walk comes back to
  an edge id it went through.
\<close>

definition before_cycle :: "Edge list \<Rightarrow> string \<Rightarrow> Edge list \<Rightarrow> bool" where
  "before_cycle E M ws \<longleftrightarrow>
     service_ports E M \<and>
     (case ws of [] \<Rightarrow> False | e0 # ws' \<Rightarrow> first_edge E (at_before_port M) e0) \<and>
     back_steps E ws \<and> \<not> distinct (map edge_id ws)"

section \<open>Auxiliary definitions\<close>

text \<open>The configuration object keeps both of its phases.\<close>

definition has_phases :: "HooksConfig \<Rightarrow> bool" where
  "has_phases cfg \<longleftrightarrow> map_of cfg ''before'' \<noteq> None \<and> map_of cfg ''after'' \<noteq> None"

text \<open>
  The number of service nodes; the invariant that there is one, under the fixed id;
  the operations that do not delete a node with that id.
\<close>

definition service_count :: "Node list \<Rightarrow> nat" where
  "service_count nodes = length (filter (\<lambda>n. node_type n = SERVICE_NODE_TYPE) nodes)"

definition one_service :: "Node list \<Rightarrow> bool" where
  "one_service nodes \<longleftrightarrow>
     service_count nodes = 1 \<and>
     (\<forall>n\<in>set nodes. node_type n = SERVICE_NODE_TYPE \<longrightarrow> node_id n = SERVICE_ID)"

fun keeps_service :: "Op \<Rightarrow> bool" where
  "keeps_service (DeleteNodes deleted) = (SERVICE_ID \<notin> set (map node_id deleted))"
| "keeps_service op = True"

text \<open>
  Rewiring a walk around a deleted node \<open>a\<close>: the edge that arrives at \<open>a\<close> in the
  direction of the walk is replaced by the synthesized edge \<open>ne\<close>, the edge that
  leaves \<open>a\<close> is dropped.
\<close>

definition reroute :: "(Edge \<Rightarrow> string) \<Rightarrow> string \<Rightarrow> Edge \<Rightarrow> Edge \<Rightarrow> Edge" where
  "reroute tgt a ne e = (if tgt e = a then ne else e)"

definition rewired :: "(Edge \<Rightarrow> string) \<Rightarrow> (Edge \<Rightarrow> string) \<Rightarrow> string \<Rightarrow> Edge \<Rightarrow> Edge list \<Rightarrow> Edge list" where
  "rewired src tgt a ne ws = map (reroute tgt a ne) (filter (\<lambda>e. src e \<noteq> a) ws)"

text \<open>
  What the generic argument needs of the graph, the deleted node \<open>a\<close> and the
  synthesized edge \<open>ne\<close> from \<open>p\<close> to \<open>q\<close> (in the direction of the walk).
\<close>

definition bypass ::
  "(Edge \<Rightarrow> string) \<Rightarrow> (Edge \<Rightarrow> string) \<Rightarrow> Edge list \<Rightarrow> string \<Rightarrow> string \<Rightarrow> string \<Rightarrow> Edge \<Rightarrow> bool" where
  "bypass src tgt E a p q ne \<longleftrightarrow>
     a \<noteq> SERVICE_ID \<and> p \<noteq> SERVICE_ID \<and> q \<noteq> SERVICE_ID \<and> a \<noteq> p \<and> a \<noteq> q \<and> p \<noteq> q \<and>
     (\<forall>e\<in>set E. tgt e = a \<longrightarrow> src e = p) \<and>
     (\<forall>e\<in>set E. src e = a \<longrightarrow> tgt e = q) \<and>
     (\<exists>e\<in>set E. tgt e = a) \<and> (\<exists>e\<in>set E. src e = a) \<and>
     (\<forall>e\<in>set E. tgt e = q \<and> src e \<noteq> SERVICE_ID \<longrightarrow> src e = a) \<and>
     src ne = p \<and> tgt ne = q \<and>
     edge_id ne \<notin> edge_id ` set E \<and> edge_id ne \<notin> set objectPrototypeKeys"

text \<open>The edges that do not touch the node \<open>a\<close>.\<close>

definition without :: "string \<Rightarrow> Edge list \<Rightarrow> Edge list" where
  "without a E = filter (\<lambda>e. source e \<noteq> a \<and> target e \<noteq> a) E"

text \<open>
  The ids of the nodes that the traversals of a method look up, in the order in which
  they are yielded, and the hooks of a list of node ids.
\<close>

definition beforeNodes :: "Edge list \<Rightarrow> Node list \<Rightarrow> string \<Rightarrow> string list" where
  "beforeNodes E N M = map (\<lambda>(node, c). source c) (fst (ancestry E N (beforeHandle M)))"

definition afterNodes :: "Edge list \<Rightarrow> Node list \<Rightarrow> string \<Rightarrow> string list" where
  "afterNodes E N M = map (\<lambda>(node, c). target c) (fst (descent E N (afterHandle M)))"

definition hooksOf :: "Node list \<Rightarrow> string list \<Rightarrow> Hook list" where
  "hooksOf N ks = map (\<lambda>k. hookOf (findNode N k)) ks"

text \<open>
  A unit node \<open>A\<close> between the unit nodes \<open>B\<close> and \<open>C\<close>: \<open>B\<close> is its only incomer and
  \<open>C\<close> its only outgoer, the three are different nodes and none is the service node,
  every edge joins nodes of the graph, the edge from \<open>A\<close> is the only edge into \<open>C\<close>
  that does not come from the service, the edge to \<open>A\<close> is the only edge out of \<open>B\<close>
  that does not go to the service, and the id of the synthesized edge is not in use.
\<close>

definition deletable_unit :: "Node \<Rightarrow> Node \<Rightarrow> Node \<Rightarrow> Node list \<Rightarrow> Edge list \<Rightarrow> bool" where
  "deletable_unit A B C N E \<longleftrightarrow>
     getIncomers A N E = [B] \<and> getOutgoers A N E = [C] \<and>
     distinct [node_id A, node_id B, node_id C, SERVICE_ID] \<and>
     (\<forall>e\<in>set E. source e \<in> set (map node_id N) \<and> target e \<in> set (map node_id N)) \<and>
     (\<forall>e\<in>set E. target e = node_id C \<and> source e \<noteq> SERVICE_ID \<longrightarrow> source e = node_id A) \<and>
     (\<forall>e\<in>set E. source e = node_id B \<and> target e \<noteq> SERVICE_ID \<longrightarrow> target e = node_id A) \<and>
     node_id B @ ''->'' @ node_id C \<notin> set (map edge_id E)"

text \<open>
  Two method mappings with the same set of method keys, each mapped to the same
  hook sequence; two configurations that hold the same chains: the same phases, with
  such mappings in each phase, whatever the order of the keys; two configurations whose
  keys come in the same order, the phase keys as well as the method keys of each phase;
  a configuration in which, as in every object, no key occurs twice.
\<close>

definition same_methods :: "(string \<times> Hook list) list \<Rightarrow> (string \<times> Hook list) list \<Rightarrow> bool" where
  "same_methods x y \<longleftrightarrow>
     set (map fst x) = set (map fst y) \<and> (\<forall>m\<in>set (map fst x). map_of x m = map_of y m)"

definition same_chains :: "HooksConfig \<Rightarrow> HooksConfig \<Rightarrow> bool" where
  "same_chains a b \<longleftrightarrow>
     set (map fst a) = set (map fst b) \<and>
     (\<forall>p\<in>set (map fst a).
        case (map_of a p, map_of b p) of (Some x, Some y) \<Rightarrow> same_methods x y | _ \<Rightarrow> False)"

definition same_key_order :: "HooksConfig \<Rightarrow> HooksConfig \<Rightarrow> bool" where
  "same_key_order a b \<longleftrightarrow>
     map fst a = map fst b \<and>
     (\<forall>p\<in>set (map fst a).
        case (map_of a p, map_of b p) of (Some x, Some y) \<Rightarrow> map fst x = map fst y | _ \<Rightarrow> False)"

definition well_keyed :: "HooksConfig \<Rightarrow> bool" where
  "well_keyed a \<longleftrightarrow> distinct (map fst a) \<and> (\<forall>obj\<in>set (map snd a). distinct (map fst obj))"

text \<open>
  A printer is self-delimiting when what it prints can be read back from the front of
  any text that starts with it; an opener never starts with a separator or a closing
  bracket.
\<close>

definition self_delimiting :: "('a \<Rightarrow> string) \<Rightarrow> bool" where
  "self_delimiting f \<longleftrightarrow> (\<forall>x y r r'. f x @ r = f y @ r' \<longrightarrow> x = y \<and> r = r')"

definition opener :: "('a \<Rightarrow> string) \<Rightarrow> bool" where
  "opener f \<longleftrightarrow> (\<forall>x. \<exists>c cs. f x = c # cs \<and> c \<noteq> CHR '']'' \<and> c \<noteq> CHR ''}'')"

text \<open>Every edge id contains a hyphen, as the ids that the editor makes do.\<close>

definition hyphenated :: "Edge list \<Rightarrow> bool" where
  "hyphenated E \<longleftrightarrow> (\<forall>e\<in>set E. CHR ''-'' \<in> set (edge_id e))"

text \<open>
  What the editor can be told to do. Node ids are made by \<^verbatim>\<open>randomStr\<close> and the handles
  of a node by the node components, none of which is part of the sources: node ids and
  the method names of the output handles are taken to be plain (without the characters
  \<open>-\<close> and \<open>>\<close>), a unit to offer the handles \<open>in\<close> and \<open>out\<close>, and the service
  node the handles \<^verbatim>\<open>before-M\<close> and \<^verbatim>\<open>after-M\<close>. An edge of the editor is an edge made by
  \<open>addEdge\<close> from such a connection or synthesized by \<open>onNodesDelete\<close> between such
  nodes.
\<close>

definition plain :: "string \<Rightarrow> bool" where
  "plain s \<longleftrightarrow> CHR ''-'' \<notin> set s \<and> CHR ''>'' \<notin> set s"

definition out_handle :: "string \<Rightarrow> handle \<Rightarrow> bool" where
  "out_handle s h \<longleftrightarrow>
     (if s = SERVICE_ID then (\<exists>m. plain m \<and> h = Str (afterHandle m)) else h = Str ''out'')"

definition in_handle :: "string \<Rightarrow> handle \<Rightarrow> bool" where
  "in_handle t h \<longleftrightarrow>
     (if t = SERVICE_ID then (\<exists>m. h = Str (beforeHandle m)) else h = Str ''in'')"

definition wired :: "Connection \<Rightarrow> bool" where
  "wired c \<longleftrightarrow>
     (case (conn_source c, conn_target c) of
        (Some s, Some t) \<Rightarrow>
          plain s \<and> plain t \<and> out_handle s (conn_sourceHandle c) \<and> in_handle t (conn_targetHandle c)
      | _ \<Rightarrow> False)"

fun editor_op :: "Op \<Rightarrow> bool" where
  "editor_op (Connect c) = wired c"
| "editor_op (AddHook hookId r) = plain r"
| "editor_op (DeleteNodes ds) = True"

definition editor_edge :: "Edge \<Rightarrow> bool" where
  "editor_edge e \<longleftrightarrow>
     plain (source e) \<and> plain (target e) \<and>
     ((source e \<noteq> [] \<and>
       edge_id e = getEdgeId (source e) (sourceHandle e) (target e) (targetHandle e) \<and>
       out_handle (source e) (sourceHandle e) \<and> in_handle (target e) (targetHandle e)) \<or>
      e = createdEdge (source e) (target e))"

definition editor_graph :: "Node list \<Rightarrow> Edge list \<Rightarrow> bool" where
  "editor_graph N E \<longleftrightarrow> (\<forall>n\<in>set N. plain (node_id n)) \<and> (\<forall>e\<in>set E. editor_edge e)"

section \<open>Scenarios\<close>

text \<open>
  The nodes of the scenarios: the service node and the units \<open>a\<close>, \<open>b\<close>, \<open>c\<close>,
  \<open>d\<close>, added by \<open>addHook\<close>, with the handles \<open>in\<close> and \<open>out\<close>. The graphs are
  built by \<open>onConnect\<close> from the empty graph.
\<close>

definition scenario_nodes :: "Node list" where
  "scenario_nodes =
     addHook ''hookD'' ''d'' (addHook ''hookC'' ''c''
       (addHook ''hookB'' ''b'' (addHook ''hookA'' ''a'' initialNodes)))"

definition unit_a :: Node where
  "unit_a = \<lparr>node_id = ''a'', node_type = HOOK_NODE_TYPE, data_id = Some ''hookA''\<rparr>"

definition unit_b :: Node where
  "unit_b = \<lparr>node_id = ''b'', node_type = HOOK_NODE_TYPE, data_id = Some ''hookB''\<rparr>"

definition unit_c :: Node where
  "unit_c = \<lparr>node_id = ''c'', node_type = HOOK_NODE_TYPE, data_id = Some ''hookC''\<rparr>"

definition connectionOf :: "string \<Rightarrow> string \<Rightarrow> string \<Rightarrow> string \<Rightarrow> Connection" where
  "connectionOf s sh t th =
     \<lparr>conn_source = Some s, conn_sourceHandle = Str sh, conn_target = Some t, conn_targetHandle = Str th\<rparr>"

text \<open>
  Connecting the output of the unit \<open>u\<close> to the inputs of the nodes \<open>ts\<close>, one
  after the other, and the edge that such a connection makes.
\<close>

definition connectAll :: "string \<Rightarrow> string list \<Rightarrow> Edge list \<Rightarrow> Edge list" where
  "connectAll u ts E = foldl (\<lambda>E' t. onConnect (connectionOf u ''out'' t ''in'') E') E ts"

definition fanEdge :: "string \<Rightarrow> string \<Rightarrow> Edge" where
  "fanEdge u t =
     \<lparr>edge_id = getEdgeId u (Str ''out'') t (Str ''in''), source = u, target = t,
      sourceHandle = Str ''out'', targetHandle = Str ''in''\<rparr>"

text \<open>
  The end-to-end scenarios of the before chain and of the after chain, and a cycle
  \<open>a \<rightarrow> c \<rightarrow> b \<rightarrow> a\<close> behind the port \<open>before-GET\<close>, in a state that holds a
  configuration resolved earlier.
\<close>

definition before_scenario :: "Edge list" where
  "before_scenario =
     onConnect (connectionOf ''b'' ''out'' ''a'' ''in'')
       (onConnect (connectionOf ''a'' ''out'' ''service'' ''before-GET'') [])"

definition after_scenario :: "Edge list" where
  "after_scenario =
     onConnect (connectionOf ''c'' ''out'' ''d'' ''in'')
       (onConnect (connectionOf ''service'' ''after-POST'' ''c'' ''in'') [])"

definition cycle_scenario :: "Edge list" where
  "cycle_scenario =
     onConnect (connectionOf ''a'' ''out'' ''c'' ''in'')
       (onConnect (connectionOf ''c'' ''out'' ''b'' ''in'')
         (onConnect (connectionOf ''b'' ''out'' ''a'' ''in'')
           (onConnect (connectionOf ''a'' ''out'' ''service'' ''before-GET'') [])))"

definition cycle_state :: EditorState where
  "cycle_state =
     \<lparr>st_nodes = scenario_nodes, st_edges = cycle_scenario,
      currentHooks = Some [(''after'', [(''POST'', []), (''GET'', [])]),
                           (''before'', [(''POST'', []), (''GET'', [[Some ''hookA'']])])],
      existingHooks = None\<rparr>"

text \<open>
  The unit \<open>a\<close> fans out to the service and to \<open>c\<close>; the service is connected
  to the input of \<open>c\<close> that \<open>b\<close> occupies.
\<close>

definition fanout_scenario :: "Edge list" where
  "fanout_scenario = onConnect (connectionOf ''a'' ''out'' ''c'' ''in'') before_scenario"

definition arity_scenario :: "Edge list" where
  "arity_scenario =
     onConnect (connectionOf ''service'' ''after-GET'' ''c'' ''in'')
       (onConnect (connectionOf ''b'' ''out'' ''c'' ''in'') [])"

text \<open>
  Graphs for deleting nodes: the service feeds \<open>a\<close>, which fans out to \<open>c\<close> and
  \<open>d\<close>; a unit before the service and a unit after it; the chain
  \<open>b \<rightarrow> a \<rightarrow> service.before-GET\<close>, where \<open>a\<close> sits on a service port; the chain
  \<open>b \<rightarrow> a \<rightarrow> c \<rightarrow> service.before-GET\<close>, where \<open>a\<close> is between two units; the
  service feeding \<open>b\<close>, which fans out to \<open>a\<close> and to \<open>d\<close>, with \<open>a\<close> feeding
  \<open>c\<close>.
\<close>

definition rewire_scenario :: "Edge list" where
  "rewire_scenario =
     onConnect (connectionOf ''a'' ''out'' ''d'' ''in'')
       (onConnect (connectionOf ''a'' ''out'' ''c'' ''in'')
         (onConnect (connectionOf ''service'' ''after-GET'' ''a'' ''in'') []))"

definition service_scenario :: EditorState where
  "service_scenario =
     \<lparr>st_nodes = scenario_nodes,
      st_edges = onConnect (connectionOf ''service'' ''after-GET'' ''c'' ''in'')
                   (onConnect (connectionOf ''a'' ''out'' ''service'' ''before-GET'') []),
      currentHooks = None, existingHooks = None\<rparr>"

definition port_state :: EditorState where
  "port_state =
     \<lparr>st_nodes = scenario_nodes, st_edges = before_scenario, currentHooks = None, existingHooks = None\<rparr>"

definition chain_scenario :: "Edge list" where
  "chain_scenario =
     onConnect (connectionOf ''b'' ''out'' ''a'' ''in'')
       (onConnect (connectionOf ''a'' ''out'' ''c'' ''in'')
         (onConnect (connectionOf ''c'' ''out'' ''service'' ''before-GET'') []))"

definition chain_state :: EditorState where
  "chain_state =
     \<lparr>st_nodes = scenario_nodes, st_edges = chain_scenario, currentHooks = None, existingHooks = None\<rparr>"

definition fanout_chain_state :: EditorState where
  "fanout_chain_state =
     \<lparr>st_nodes = scenario_nodes,
      st_edges = onConnect (connectionOf ''a'' ''out'' ''c'' ''in'')
                   (onConnect (connectionOf ''b'' ''out'' ''d'' ''in'')
                     (onConnect (connectionOf ''b'' ''out'' ''a'' ''in'')
                       (onConnect (connectionOf ''service'' ''after-GET'' ''b'' ''in'') []))),
      currentHooks = None, existingHooks = None\<rparr>"

text \<open>
  A graph with two edges into the input of \<open>a\<close>: the unit \<open>x\<close> between \<open>d\<close> and
  \<open>a\<close> is deleted, which leaves a synthesized edge from \<open>d\<close> to \<open>a\<close> without
  handles, and \<open>b\<close> is connected to the input of \<open>a\<close> afterwards. Then the same graph
  with the cycle \<open>a \<rightarrow> c \<rightarrow> b \<rightarrow> a\<close> closed through the second edge into \<open>a\<close>.
  And the after scenario with a second edge out of \<open>c\<close>.
\<close>

definition unit_x :: Node where
  "unit_x = \<lparr>node_id = ''x'', node_type = HOOK_NODE_TYPE, data_id = Some ''hookX''\<rparr>"

definition fanin_ops :: "Op list" where
  "fanin_ops =
     [AddHook ''hookA'' ''a'', AddHook ''hookB'' ''b'', AddHook ''hookC'' ''c'',
      AddHook ''hookD'' ''d'', AddHook ''hookX'' ''x'',
      Connect (connectionOf ''a'' ''out'' ''service'' ''before-GET''),
      Connect (connectionOf ''d'' ''out'' ''x'' ''in''),
      Connect (connectionOf ''x'' ''out'' ''a'' ''in''),
      DeleteNodes [unit_x],
      Connect (connectionOf ''b'' ''out'' ''a'' ''in'')]"

definition fanin_state :: EditorState where
  "fanin_state = applyOps [''GET''] initialState fanin_ops"

definition offwalk_state :: EditorState where
  "offwalk_state =
     applyOps [''GET''] fanin_state
       [Connect (connectionOf ''c'' ''out'' ''b'' ''in''),
        Connect (connectionOf ''a'' ''out'' ''c'' ''in'')]"

definition fanout_after_scenario :: "Edge list" where
  "fanout_after_scenario = onConnect (connectionOf ''c'' ''out'' ''a'' ''in'') after_scenario"

text \<open>
  The same chains for \<open>GET\<close> and \<open>POST\<close>: with the methods in either order, and
  with the phases in the other order.
\<close>

definition config_get_post :: HooksConfig where
  "config_get_post =
     [(''after'', [(''GET'', []), (''POST'', [])]),
      (''before'', [(''GET'', [[Some ''log'']]), (''POST'', [])])]"

definition config_before_after :: HooksConfig where
  "config_before_after =
     [(''before'', [(''GET'', [[Some ''log'']]), (''POST'', [])]),
      (''after'', [(''GET'', []), (''POST'', [])])]"

definition config_post_get :: HooksConfig where
  "config_post_get =
     [(''after'', [(''POST'', []), (''GET'', [])]),
      (''before'', [(''POST'', []), (''GET'', [[Some ''log'']])])]"

section \<open>Properties of the traversals\<close>

lemma ancestry_loop_walk: "ancestry_loop E N v cur = walk source target E N v cur"
  by (induction E N v cur rule: ancestry_loop.induct) (simp_all add: ancestor_def step_def)

lemma descent_loop_walk: "descent_loop E N v cur = walk target source E N v cur"
  by (induction E N v cur rule: descent_loop.induct) (simp_all add: descendant_def step_def)

lemma step_in: "step src tgt E c = Some d \<Longrightarrow> d \<in> set E"
  by (auto simp: step_def find_Some_iff)

lemma step_Some:
  "step src tgt E c = Some d \<Longrightarrow> d \<in> set E \<and> src d \<noteq> SERVICE_ID \<and> tgt d = src c"
  unfolding step_def by (auto simp: find_Some_iff)

lemma walk_length:
  "(\<forall>c. cur = Some c \<longrightarrow> c \<in> set E) \<Longrightarrow>
   length (fst (walk src tgt E N v cur)) \<le> card (edge_id ` set E - v)"
proof (induction src tgt E N v cur rule: walk.induct)
  case (1 src tgt E N v)
  then show ?case by simp
next
  case (2 src tgt E N v c)
  show ?case
  proof (cases "visited_has v (edge_id c)")
    case True
    then show ?thesis by simp
  next
    case False
    have cin: "c \<in> set E" using "2.prems" by simp
    have "\<forall>d. step src tgt E c = Some d \<longrightarrow> d \<in> set E" by (simp add: step_in)
    with "2.IH"[OF False] have
      ih: "length (fst (walk src tgt E N (insert (edge_id c) v) (step src tgt E c)))
            \<le> card (edge_id ` set E - insert (edge_id c) v)" by simp
    have fresh: "edge_id c \<notin> v" using False by (simp add: visited_has_def)
    have "card (edge_id ` set E - insert (edge_id c) v) < card (edge_id ` set E - v)"
      by (rule psubset_card_mono) (use fresh cin in auto)
    with ih False show ?thesis by (simp add: case_prod_unfold)
  qed
qed

lemma walk_success:
  "chain (step src tgt E) cur es \<Longrightarrow> distinct (map edge_id es) \<Longrightarrow>
   (\<forall>e\<in>set es. \<not> visited_has v (edge_id e)) \<Longrightarrow>
   walk src tgt E N v cur = (map (\<lambda>e. (findNode N (src e), e)) es, None)"
proof (induction es arbitrary: cur v)
  case Nil
  then show ?case by (cases cur) simp_all
next
  case (Cons e es)
  then obtain c where c: "cur = Some c" by (cases cur) auto
  with Cons.prems have ec: "e = c" and ch: "chain (step src tgt E) (step src tgt E c) es" by auto
  have "\<forall>x\<in>set es. \<not> visited_has (insert (edge_id c) v) (edge_id x)"
  proof
    fix x assume x: "x \<in> set es"
    from Cons.prems(2) ec have "edge_id c \<notin> edge_id ` set es" by simp
    with x have "edge_id x \<noteq> edge_id c" by (metis imageI)
    moreover from Cons.prems(3) x have "\<not> visited_has v (edge_id x)" by simp
    ultimately show "\<not> visited_has (insert (edge_id c) v) (edge_id x)"
      by (simp add: visited_has_def)
  qed
  with Cons.IH[OF ch] Cons.prems have
    "walk src tgt E N (insert (edge_id c) v) (step src tgt E c) = (map (\<lambda>e. (findNode N (src e), e)) es, None)"
    by simp
  with Cons.prems c ec show ?case by simp
qed

lemma walk_success_conv:
  "walk src tgt E N v cur = (ys, None) \<Longrightarrow>
   chain (step src tgt E) cur (map snd ys) \<and> distinct (map (\<lambda>y. edge_id (snd y)) ys) \<and>
   (\<forall>y\<in>set ys. \<not> visited_has v (edge_id (snd y))) \<and>
   ys = map (\<lambda>e. (findNode N (src e), e)) (map snd ys)"
proof (induction src tgt E N v cur arbitrary: ys rule: walk.induct)
  case (1 src tgt E N v)
  then show ?case by simp
next
  case (2 src tgt E N v c)
  from "2.prems" have nv: "\<not> visited_has v (edge_id c)" by (auto split: if_splits)
  obtain zs r where rec: "walk src tgt E N (insert (edge_id c) v) (step src tgt E c) = (zs, r)"
    by (cases "walk src tgt E N (insert (edge_id c) v) (step src tgt E c)")
  with "2.prems" nv have ys: "ys = (findNode N (src c), c) # zs" and r: "r = None" by auto
  from "2.IH"[OF nv] rec r have ih:
    "chain (step src tgt E) (step src tgt E c) (map snd zs)"
    "distinct (map (\<lambda>y. edge_id (snd y)) zs)"
    "\<forall>y\<in>set zs. \<not> visited_has (insert (edge_id c) v) (edge_id (snd y))"
    "zs = map (\<lambda>e. (findNode N (src e), e)) (map snd zs)" by auto
  from ih(3) have a: "\<forall>y\<in>set zs. edge_id (snd y) \<noteq> edge_id c \<and> \<not> visited_has v (edge_id (snd y))"
    by (auto simp: visited_has_def)
  show ?case using ys ih(1,2,4) a nv by (auto simp: comp_def)
qed

lemma walk_cycle:
  "path (step src tgt E) cur ws \<Longrightarrow>
   \<not> distinct (map edge_id ws) \<or> (\<exists>e\<in>set ws. visited_has v (edge_id e)) \<Longrightarrow>
   snd (walk src tgt E N v cur) = Some CircularConnection"
proof (induction ws arbitrary: cur v)
  case Nil
  then show ?case by simp
next
  case (Cons w ws)
  then obtain c where c: "cur = Some c" by (cases cur) auto
  with Cons.prems have wc: "w = c" and p: "path (step src tgt E) (step src tgt E c) ws" by auto
  show ?case
  proof (cases "visited_has v (edge_id c)")
    case True
    then show ?thesis using c by simp
  next
    case False
    have "\<not> distinct (map edge_id ws) \<or> (\<exists>e\<in>set ws. visited_has (insert (edge_id c) v) (edge_id e))"
      using Cons.prems(2) False wc by (auto simp: visited_has_def)
    from Cons.IH[OF p this] False c show ?thesis by (simp add: case_prod_unfold)
  qed
qed

lemma chain_det: "chain nx cur xs \<Longrightarrow> chain nx cur ys \<Longrightarrow> xs = ys"
proof (induction xs arbitrary: cur ys)
  case Nil
  then show ?case by (cases cur) auto
next
  case (Cons x xs)
  then obtain c where c: "cur = Some c" by (cases cur) auto
  with Cons.prems obtain ys' where "ys = c # ys'" "chain nx (nx c) ys'" "x = c" "chain nx (nx c) xs"
    by (cases ys) auto
  with Cons.IH show ?case by auto
qed

lemma chain_suffix: "chain nx cur (xs @ e # zs) \<Longrightarrow> chain nx (nx e) zs"
proof (induction xs arbitrary: cur)
  case Nil
  then show ?case by (cases cur) auto
next
  case (Cons x xs)
  then show ?case by (cases cur) auto
qed

lemma step_src_cong: "src c = src d \<Longrightarrow> step src tgt E c = step src tgt E d"
  by (simp add: step_def)

lemma chain_distinct_src:
  "chain (step src tgt E) cur es \<Longrightarrow> distinct (map src es)"
proof (induction es arbitrary: cur)
  case Nil
  then show ?case by simp
next
  case (Cons e es)
  then obtain c where c: "cur = Some c" by (cases cur) auto
  with Cons.prems have ec: "e = c" and ch: "chain (step src tgt E) (step src tgt E c) es" by auto
  have "src c \<notin> src ` set es"
  proof
    assume "src c \<in> src ` set es"
    then obtain d where d: "d \<in> set es" "src d = src c" by auto
    then obtain xs zs where es: "es = xs @ d # zs" by (auto simp: in_set_conv_decomp)
    from chain_suffix[of _ _ xs d zs] ch es have "chain (step src tgt E) (step src tgt E d) zs" by simp
    with step_src_cong[of src d c tgt E] d have "chain (step src tgt E) (step src tgt E c) zs" by simp
    from chain_det[OF ch this] es show False by simp
  qed
  with Cons.IH[OF ch] ec show ?case by simp
qed

lemma walk_yields_distinct:
  "distinct (map (\<lambda>y. edge_id (snd y)) (fst (walk src tgt E N v cur))) \<and>
   edge_id ` snd ` set (fst (walk src tgt E N v cur)) \<inter> v = {}"
proof (induction src tgt E N v cur rule: walk.induct)
  case (1 src tgt E N v)
  then show ?case by simp
next
  case (2 src tgt E N v c)
  show ?case
  proof (cases "visited_has v (edge_id c)")
    case True
    then show ?thesis by simp
  next
    case False
    have fresh: "edge_id c \<notin> v" using False by (simp add: visited_has_def)
    let ?r = "walk src tgt E N (insert (edge_id c) v) (step src tgt E c)"
    from "2.IH"[OF False] have d: "distinct (map (\<lambda>y. edge_id (snd y)) (fst ?r))"
      and i: "edge_id ` snd ` set (fst ?r) \<inter> insert (edge_id c) v = {}" by simp_all
    from i have "edge_id c \<notin> edge_id ` snd ` set (fst ?r)"
      and "edge_id ` snd ` set (fst ?r) \<inter> v = {}" by auto
    with d fresh False show ?thesis by (auto simp: case_prod_unfold image_iff)
  qed
qed

text \<open>
  C10. The two traversals are total functions: their loops are defined by recursion
  on the number of edge ids not yet visited, which every iteration that does not throw
  makes smaller. Whether it ends or throws, a traversal yields pairs with distinct edge
  ids, and no more pairs than the graph has edges.
\<close>

theorem traversals_bounded:
  "length (fst (ancestry edges nodes h)) \<le> length edges \<and>
   length (fst (descent edges nodes h)) \<le> length edges \<and>
   distinct (map (\<lambda>y. edge_id (snd y)) (fst (ancestry edges nodes h))) \<and>
   distinct (map (\<lambda>y. edge_id (snd y)) (fst (descent edges nodes h)))"
proof -
  have start: "\<And>Q. \<forall>c. List.find Q edges = Some c \<longrightarrow> c \<in> set edges"
    by (auto simp: find_Some_iff)
  have card: "card (edge_id ` set edges - {}) \<le> length edges"
    by (simp add: card_image_le[THEN order_trans] card_length)
  have a: "length (fst (ancestry edges nodes h)) \<le> length edges"
    unfolding ancestry_def ancestry_loop_walk
    using walk_length[OF start, of source target nodes "{}"] card by (rule order_trans)
  have b: "length (fst (descent edges nodes h)) \<le> length edges"
    unfolding descent_def descent_loop_walk
    using walk_length[OF start, of target source nodes "{}"] card by (rule order_trans)
  show ?thesis using a b walk_yields_distinct
    by (simp add: ancestry_def descent_def ancestry_loop_walk descent_loop_walk)
qed


section \<open>The walks of the specification and the loops of the code\<close>

lemma no_edge_find: "no_edge E Q \<Longrightarrow> List.find Q E = None"
  by (simp add: no_edge_def find_None_iff)

lemma find_no_edge: "List.find Q E = None \<Longrightarrow> no_edge E Q"
  by (simp add: no_edge_def find_None_iff)

lemma step_precedes: "step source target E c = List.find (precedes c) E"
  unfolding step_def by (rule find_cong) (simp_all add: precedes_def)

lemma step_follows: "step target source E c = List.find (follows c) E"
  unfolding step_def by (rule find_cong) (simp_all add: follows_def)

lemma back_steps_path:
  "back_steps E (e # ws) \<Longrightarrow> path (step source target E) (Some e) (e # ws)"
proof (induction ws arbitrary: e)
  case Nil
  then show ?case by simp
next
  case (Cons w ws)
  from Cons.prems have t: "first_edge E (precedes e) w" and b: "back_steps E (w # ws)" by simp_all
  from t have "step source target E e = Some w" by (simp only: step_precedes first_edge_def)
  with Cons.IH[OF b] show ?case by simp
qed

lemma forward_steps_path:
  "forward_steps E (e # ws) \<Longrightarrow> path (step target source E) (Some e) (e # ws)"
proof (induction ws arbitrary: e)
  case Nil
  then show ?case by simp
next
  case (Cons w ws)
  from Cons.prems have t: "first_edge E (follows e) w" and b: "forward_steps E (w # ws)" by simp_all
  from t have "step target source E e = Some w" by (simp only: step_follows first_edge_def)
  with Cons.IH[OF b] show ?case by simp
qed

lemma path_chain:
  "path nx (Some e) (e # ws) \<Longrightarrow> nx (last (e # ws)) = None \<Longrightarrow> chain nx (Some e) (e # ws)"
proof (induction ws arbitrary: e)
  case Nil
  then show ?case by simp
next
  case (Cons w ws)
  then show ?case by (cases "nx e") auto
qed

lemma chain_back_steps:
  "chain (step source target E) (Some e) (e # ws) \<Longrightarrow>
   back_steps E (e # ws) \<and> no_edge E (precedes (last (e # ws)))"
proof (induction ws arbitrary: e)
  case Nil
  then have "step source target E e = None" by (cases "step source target E e") simp_all
  then have "no_edge E (precedes e)" by (simp only: step_precedes find_no_edge)
  then show ?case by simp
next
  case (Cons w ws)
  from Cons.prems obtain c where c: "step source target E e = Some c"
    by (cases "step source target E e") auto
  with Cons.prems have wc: "w = c" and ch: "chain (step source target E) (Some w) (w # ws)" by auto
  from c wc have "first_edge E (precedes e) w" by (simp add: first_edge_def step_precedes)
  with Cons.IH[OF ch] show ?case by simp
qed

lemma chain_forward_steps:
  "chain (step target source E) (Some e) (e # ws) \<Longrightarrow>
   forward_steps E (e # ws) \<and> no_edge E (follows (last (e # ws)))"
proof (induction ws arbitrary: e)
  case Nil
  then have "step target source E e = None" by (cases "step target source E e") simp_all
  then have "no_edge E (follows e)" by (simp only: step_follows find_no_edge)
  then show ?case by simp
next
  case (Cons w ws)
  from Cons.prems obtain c where c: "step target source E e = Some c"
    by (cases "step target source E e") auto
  with Cons.prems have wc: "w = c" and ch: "chain (step target source E) (Some w) (w # ws)" by auto
  from c wc have "first_edge E (follows e) w" by (simp add: first_edge_def step_follows)
  with Cons.IH[OF ch] show ?case by simp
qed

lemma before_start:
  assumes "service_ports E M"
  shows "List.find (\<lambda>e. targetHandle e = Str (beforeHandle M)) E = List.find (at_before_port M) E"
  by (rule find_cong) (use assms in \<open>auto simp: service_ports_def at_before_port_def\<close>)

lemma after_start:
  assumes "service_ports E M"
  shows "List.find (\<lambda>e. sourceHandle e = Str (afterHandle M)) E = List.find (at_after_port M) E"
  by (rule find_cong) (use assms in \<open>auto simp: service_ports_def at_after_port_def\<close>)

text \<open>A walk of the specification is the complete chain of the loop, and the only one.\<close>

lemma before_walk_chain:
  "before_walk E M ws \<longleftrightarrow> chain (step source target E) (List.find (at_before_port M) E) ws"
proof (cases ws)
  case Nil
  show ?thesis
  proof (cases "List.find (at_before_port M) E")
    case None
    with Nil show ?thesis by (simp add: before_walk_def find_no_edge)
  next
    case (Some c)
    then have "\<not> no_edge E (at_before_port M)" using no_edge_find by fastforce
    with Nil Some show ?thesis by (simp add: before_walk_def)
  qed
next
  case (Cons e0 ws')
  show ?thesis
  proof
    assume w: "before_walk E M ws"
    with Cons have s: "List.find (at_before_port M) E = Some e0" and b: "back_steps E (e0 # ws')"
      and l: "no_edge E (precedes (last (e0 # ws')))" by (simp_all add: before_walk_def first_edge_def)
    from l have "step source target E (last (e0 # ws')) = None" by (simp only: step_precedes no_edge_find)
    from path_chain[OF back_steps_path[OF b] this] s Cons
    show "chain (step source target E) (List.find (at_before_port M) E) ws" by simp
  next
    assume c: "chain (step source target E) (List.find (at_before_port M) E) ws"
    with Cons obtain c0 where s: "List.find (at_before_port M) E = Some c0"
      by (cases "List.find (at_before_port M) E") auto
    with c Cons have e: "e0 = c0" and ch: "chain (step source target E) (Some e0) (e0 # ws')" by auto
    from chain_back_steps[OF ch] s e Cons show "before_walk E M ws"
      by (simp add: before_walk_def first_edge_def)
  qed
qed

lemma after_walk_chain:
  "after_walk E M ws \<longleftrightarrow> chain (step target source E) (List.find (at_after_port M) E) ws"
proof (cases ws)
  case Nil
  show ?thesis
  proof (cases "List.find (at_after_port M) E")
    case None
    with Nil show ?thesis by (simp add: after_walk_def find_no_edge)
  next
    case (Some c)
    then have "\<not> no_edge E (at_after_port M)" using no_edge_find by fastforce
    with Nil Some show ?thesis by (simp add: after_walk_def)
  qed
next
  case (Cons e0 ws')
  show ?thesis
  proof
    assume w: "after_walk E M ws"
    with Cons have s: "List.find (at_after_port M) E = Some e0" and b: "forward_steps E (e0 # ws')"
      and l: "no_edge E (follows (last (e0 # ws')))" by (simp_all add: after_walk_def first_edge_def)
    from l have "step target source E (last (e0 # ws')) = None" by (simp only: step_follows no_edge_find)
    from path_chain[OF forward_steps_path[OF b] this] s Cons
    show "chain (step target source E) (List.find (at_after_port M) E) ws" by simp
  next
    assume c: "chain (step target source E) (List.find (at_after_port M) E) ws"
    with Cons obtain c0 where s: "List.find (at_after_port M) E = Some c0"
      by (cases "List.find (at_after_port M) E") auto
    with c Cons have e: "e0 = c0" and ch: "chain (step target source E) (Some e0) (e0 # ws')" by auto
    from chain_forward_steps[OF ch] s e Cons show "after_walk E M ws"
      by (simp add: after_walk_def first_edge_def)
  qed
qed

lemma before_walk_unique: "before_walk E M ws \<Longrightarrow> before_walk E M ws' \<Longrightarrow> ws = ws'"
  unfolding before_walk_chain by (rule chain_det)

lemma after_walk_unique: "after_walk E M ws \<Longrightarrow> after_walk E M ws' \<Longrightarrow> ws = ws'"
  unfolding after_walk_chain by (rule chain_det)

text \<open>
  In an acyclic graph whose edges are identified by their ids the loop never comes
  back to an edge id: the source nodes of the edges it went through lie behind the
  current edge on a path of arcs between units.
\<close>

lemma walk_acyclic:
  "acyclic L \<Longrightarrow>
   \<forall>e\<in>set E. src e \<noteq> SERVICE_ID \<and> tgt e \<noteq> SERVICE_ID \<longrightarrow> (src e, tgt e) \<in> L \<Longrightarrow>
   SERVICE_ID \<notin> Domain L \<Longrightarrow>
   \<forall>e\<in>set E. \<forall>e'\<in>set E. edge_id e' = edge_id e \<longrightarrow> src e' = src e \<Longrightarrow>
   \<forall>e\<in>set E. edge_id e \<notin> set objectPrototypeKeys \<Longrightarrow>
   \<forall>c. cur = Some c \<longrightarrow> c \<in> set E \<and>
      (\<forall>d\<in>set E. edge_id d \<in> v \<longrightarrow>
         src c \<noteq> src d \<and> (src d \<noteq> SERVICE_ID \<longrightarrow> (src c, src d) \<in> L\<^sup>+)) \<Longrightarrow>
   snd (walk src tgt E N v cur) = None"
proof (induction src tgt E N v cur rule: walk.induct)
  case (1 src tgt E N v)
  show ?case by simp
next
  case (2 src tgt E N v c)
  note ac = "2.prems"(1) and L = "2.prems"(2) and dom = "2.prems"(3) and ids = "2.prems"(4)
    and np = "2.prems"(5) and inv = "2.prems"(6)
  from inv have cE: "c \<in> set E"
    and prior: "\<And>d. d \<in> set E \<Longrightarrow> edge_id d \<in> v \<Longrightarrow>
                 src c \<noteq> src d \<and> (src d \<noteq> SERVICE_ID \<longrightarrow> (src c, src d) \<in> L\<^sup>+)"
    by simp_all
  have fresh: "edge_id c \<notin> v" using prior[OF cE] by blast
  with np cE have nv: "\<not> visited_has v (edge_id c)" by (simp add: visited_has_def)
  have nodom: "\<And>x y. (x, y) \<in> L\<^sup>+ \<Longrightarrow> x \<noteq> SERVICE_ID"
    using dom by (metis Domain.DomainI trancl_domain)
  have nxt: "\<forall>c'. step src tgt E c = Some c' \<longrightarrow> c' \<in> set E \<and>
      (\<forall>d\<in>set E. edge_id d \<in> insert (edge_id c) v \<longrightarrow>
         src c' \<noteq> src d \<and> (src d \<noteq> SERVICE_ID \<longrightarrow> (src c', src d) \<in> L\<^sup>+))"
  proof (intro allI impI conjI ballI)
    fix c' assume s: "step src tgt E c = Some c'"
    then show "c' \<in> set E" by (rule step_in)
  next
    fix c' d assume s: "step src tgt E c = Some c'" and dE: "d \<in> set E"
      and dv: "edge_id d \<in> insert (edge_id c) v"
    from step_Some[OF s] have c'E: "c' \<in> set E" and c's: "src c' \<noteq> SERVICE_ID" and c't: "tgt c' = src c"
      by simp_all
    have arc: "src c \<noteq> SERVICE_ID \<Longrightarrow> (src c', src c) \<in> L" using L c'E c's c't by fastforce
    have reach: "src d \<noteq> SERVICE_ID \<Longrightarrow> (src c', src d) \<in> L\<^sup>+"
    proof (cases "edge_id d = edge_id c")
      case True
      assume "src d \<noteq> SERVICE_ID"
      moreover from ids dE cE True have "src d = src c" by blast
      ultimately show ?thesis using arc by (simp add: r_into_trancl)
    next
      case False
      assume ns: "src d \<noteq> SERVICE_ID"
      from False dv have "edge_id d \<in> v" by simp
      from prior[OF dE this] ns have p: "(src c, src d) \<in> L\<^sup>+" by simp
      from nodom[OF p] arc have "(src c', src c) \<in> L" by simp
      from this p show ?thesis by (rule trancl_into_trancl2)
    qed
    show "src c' \<noteq> src d"
    proof
      assume e: "src c' = src d"
      with c's have "src d \<noteq> SERVICE_ID" by simp
      from reach[OF this] e have "(src d, src d) \<in> L\<^sup>+" by simp
      with ac show False by (simp add: acyclic_def)
    qed
    show "src d \<noteq> SERVICE_ID \<Longrightarrow> (src c', src d) \<in> L\<^sup>+" by (rule reach)
  qed
  from "2.IH"[OF nv ac L dom ids np nxt] nv show ?case by (simp add: case_prod_unfold)
qed

lemma unit_arcs_iff:
  "(x, y) \<in> unit_arcs E \<longleftrightarrow>
     (\<exists>e\<in>set E. source e = x \<and> target e = y \<and> x \<noteq> SERVICE_ID \<and> y \<noteq> SERVICE_ID)"
  by (auto simp: unit_arcs_def)

lemma acyclic_arcs_graph:
  "acyclic (set (map (\<lambda>e. (source e, target e)) E)) \<Longrightarrow> acyclic_graph E"
  unfolding acyclic_graph_def by (rule acyclic_subset) (auto simp: unit_arcs_def)

lemma ancestry_ends:
  assumes "acyclic_graph E" and "identified E"
  shows "snd (ancestry E N h) = None"
  unfolding ancestry_def ancestry_loop_walk
proof (rule walk_acyclic[where L = "unit_arcs E"])
  show "acyclic (unit_arcs E)" using assms(1) by (simp add: acyclic_graph_def)
  show "\<forall>e\<in>set E. source e \<noteq> SERVICE_ID \<and> target e \<noteq> SERVICE_ID \<longrightarrow> (source e, target e) \<in> unit_arcs E"
    by (auto simp: unit_arcs_iff)
  show "SERVICE_ID \<notin> Domain (unit_arcs E)" by (auto simp: unit_arcs_iff)
  show "\<forall>e\<in>set E. \<forall>e'\<in>set E. edge_id e' = edge_id e \<longrightarrow> source e' = source e"
    using assms(2) unfolding identified_def by blast
  show "\<forall>e\<in>set E. edge_id e \<notin> set objectPrototypeKeys"
    using assms(2) unfolding identified_def by blast
  show "\<forall>c. List.find (\<lambda>edge. targetHandle edge = Str h) E = Some c \<longrightarrow> c \<in> set E \<and>
      (\<forall>d\<in>set E. edge_id d \<in> {} \<longrightarrow>
         source c \<noteq> source d \<and> (source d \<noteq> SERVICE_ID \<longrightarrow> (source c, source d) \<in> (unit_arcs E)\<^sup>+))"
    by (auto simp: find_Some_iff)
qed

lemma descent_ends:
  assumes "acyclic_graph E" and "identified E"
  shows "snd (descent E N h) = None"
  unfolding descent_def descent_loop_walk
proof (rule walk_acyclic[where L = "(unit_arcs E)\<inverse>"])
  show "acyclic ((unit_arcs E)\<inverse>)" using assms(1) by (simp add: acyclic_graph_def)
  show "\<forall>e\<in>set E. target e \<noteq> SERVICE_ID \<and> source e \<noteq> SERVICE_ID \<longrightarrow> (target e, source e) \<in> (unit_arcs E)\<inverse>"
    by (auto simp: unit_arcs_iff)
  show "SERVICE_ID \<notin> Domain ((unit_arcs E)\<inverse>)" by (auto simp: unit_arcs_iff)
  show "\<forall>e\<in>set E. \<forall>e'\<in>set E. edge_id e' = edge_id e \<longrightarrow> target e' = target e"
    using assms(2) unfolding identified_def by blast
  show "\<forall>e\<in>set E. edge_id e \<notin> set objectPrototypeKeys"
    using assms(2) unfolding identified_def by blast
  show "\<forall>c. List.find (\<lambda>edge. sourceHandle edge = Str h) E = Some c \<longrightarrow> c \<in> set E \<and>
      (\<forall>d\<in>set E. edge_id d \<in> {} \<longrightarrow>
         target c \<noteq> target d \<and> (target d \<noteq> SERVICE_ID \<longrightarrow> (target c, target d) \<in> ((unit_arcs E)\<inverse>)\<^sup>+))"
    by (auto simp: find_Some_iff)
qed

text \<open>What a traversal that ends yields is the walk of the specification.\<close>

lemma ancestry_walk:
  assumes sp: "service_ports E M" and a: "ancestry E N (beforeHandle M) = (ys, None)"
  shows "before_walk E M (map snd ys)"
    and "map (\<lambda>(node, c). hookOf node) ys = map (\<lambda>e. hookOf (findNode N (source e))) (map snd ys)"
proof -
  from a have w: "walk source target E N {} (List.find (\<lambda>e. targetHandle e = Str (beforeHandle M)) E) = (ys, None)"
    by (simp add: ancestry_def ancestry_loop_walk)
  from walk_success_conv[OF w]
  have ch: "chain (step source target E) (List.find (\<lambda>e. targetHandle e = Str (beforeHandle M)) E) (map snd ys)"
    and ys: "ys = map (\<lambda>e. (findNode N (source e), e)) (map snd ys)" by simp_all
  from ch show "before_walk E M (map snd ys)" by (simp only: before_walk_chain before_start[OF sp])
  have "map (\<lambda>(node, c). hookOf node) (map (\<lambda>e. (findNode N (source e), e)) (map snd ys)) =
        map (\<lambda>e. hookOf (findNode N (source e))) (map snd ys)" by (simp add: comp_def)
  with ys show "map (\<lambda>(node, c). hookOf node) ys = map (\<lambda>e. hookOf (findNode N (source e))) (map snd ys)"
    by simp
qed

lemma descent_walk:
  assumes sp: "service_ports E M" and a: "descent E N (afterHandle M) = (ys, None)"
  shows "after_walk E M (map snd ys)"
    and "map (\<lambda>(node, c). hookOf node) ys = map (\<lambda>e. hookOf (findNode N (target e))) (map snd ys)"
proof -
  from a have w: "walk target source E N {} (List.find (\<lambda>e. sourceHandle e = Str (afterHandle M)) E) = (ys, None)"
    by (simp add: descent_def descent_loop_walk)
  from walk_success_conv[OF w]
  have ch: "chain (step target source E) (List.find (\<lambda>e. sourceHandle e = Str (afterHandle M)) E) (map snd ys)"
    and ys: "ys = map (\<lambda>e. (findNode N (target e), e)) (map snd ys)" by simp_all
  from ch show "after_walk E M (map snd ys)" by (simp only: after_walk_chain after_start[OF sp])
  have "map (\<lambda>(node, c). hookOf node) (map (\<lambda>e. (findNode N (target e), e)) (map snd ys)) =
        map (\<lambda>e. hookOf (findNode N (target e))) (map snd ys)" by (simp add: comp_def)
  with ys show "map (\<lambda>(node, c). hookOf node) ys = map (\<lambda>e. hookOf (findNode N (target e))) (map snd ys)"
    by simp
qed

lemma has_phases_set_hooks: "has_phases cfg \<Longrightarrow> has_phases (set_hooks p m h cfg)"
  by (auto simp: has_phases_def set_hooks_def map_of_map_entry split: option.splits)

lemma lookup_set_hooks:
  "map_of cfg p \<noteq> None \<Longrightarrow>
   lookupHooks (set_hooks p m h cfg) p' m' =
     (if p' = p \<and> m' = m then Some h else lookupHooks cfg p' m')"
  by (auto simp: lookupHooks_def set_hooks_def map_of_map_entry update_conv' split: option.splits)

lemma resolve_loop_ok:
  "has_phases sh \<Longrightarrow>
   \<forall>m\<in>set ms. beforeHooks E N m = Inr (B m) \<and> afterHooks E N m = Inr (A m) \<Longrightarrow>
   \<exists>cfg. resolve_loop E N ms sh = Inr cfg \<and> has_phases cfg \<and>
     (\<forall>m. lookupHooks cfg ''before'' m = (if m \<in> set ms then Some (B m) else lookupHooks sh ''before'' m)) \<and>
     (\<forall>m. lookupHooks cfg ''after'' m = (if m \<in> set ms then Some (A m) else lookupHooks sh ''after'' m))"
proof (induction ms arbitrary: sh)
  case Nil
  then show ?case by simp
next
  case (Cons m ms)
  let ?sh = "set_hooks ''after'' m (A m) (set_hooks ''before'' m (B m) sh)"
  have hp: "has_phases ?sh" using Cons.prems(1) by (simp add: has_phases_set_hooks)
  have p1: "map_of sh ''before'' \<noteq> None" using Cons.prems(1) by (simp add: has_phases_def)
  have p2: "map_of (set_hooks ''before'' m (B m) sh) ''after'' \<noteq> None"
    using has_phases_set_hooks[OF Cons.prems(1)] by (simp add: has_phases_def)
  have lb: "\<And>x. lookupHooks ?sh ''before'' x = (if x = m then Some (B m) else lookupHooks sh ''before'' x)"
    by (simp add: lookup_set_hooks[OF p2] lookup_set_hooks[OF p1])
  have la: "\<And>x. lookupHooks ?sh ''after'' x = (if x = m then Some (A m) else lookupHooks sh ''after'' x)"
    by (simp add: lookup_set_hooks[OF p2] lookup_set_hooks[OF p1])
  from Cons.prems(2) have rest: "\<forall>m\<in>set ms. beforeHooks E N m = Inr (B m) \<and> afterHooks E N m = Inr (A m)"
    by simp
  from Cons.IH[OF hp rest] obtain cfg where cfg: "resolve_loop E N ms ?sh = Inr cfg" "has_phases cfg"
    "\<forall>x. lookupHooks cfg ''before'' x = (if x \<in> set ms then Some (B x) else lookupHooks ?sh ''before'' x)"
    "\<forall>x. lookupHooks cfg ''after'' x = (if x \<in> set ms then Some (A x) else lookupHooks ?sh ''after'' x)"
    by blast
  have "resolve_loop E N (m # ms) sh = Inr cfg" using Cons.prems(2) cfg(1) by simp
  moreover have "\<forall>x. lookupHooks cfg ''before'' x = (if x \<in> set (m # ms) then Some (B x) else lookupHooks sh ''before'' x)"
    using cfg(3) lb by auto
  moreover have "\<forall>x. lookupHooks cfg ''after'' x = (if x \<in> set (m # ms) then Some (A x) else lookupHooks sh ''after'' x)"
    using cfg(4) la by auto
  ultimately show ?case using cfg(2) by blast
qed

lemma resolve_loop_error:
  "m \<in> set ms \<Longrightarrow> beforeHooks E N m = Inl err \<or> afterHooks E N m = Inl err \<Longrightarrow>
   resolve_loop E N ms sh = Inl CircularConnection"
proof (induction ms arbitrary: sh)
  case Nil
  then show ?case by simp
next
  case (Cons x ms)
  have e: "\<And>e :: error. e = CircularConnection" by (case_tac e) simp
  show ?case
  proof (cases "beforeHooks E N x")
    case (Inl a)
    then show ?thesis using e[of a] by simp
  next
    case b: (Inr b)
    show ?thesis
    proof (cases "afterHooks E N x")
      case (Inl a)
      then show ?thesis using b e[of a] by simp
    next
      case a: (Inr a)
      with b Cons.prems have "m \<in> set ms" by auto
      from Cons.IH[OF this Cons.prems(2)] a b show ?thesis by simp
    qed
  qed
qed

lemma beforeHooks_cycle:
  assumes "before_cycle E M ws"
  shows "beforeHooks E N M = Inl CircularConnection"
proof -
  from assms obtain e0 ws' where ws: "ws = e0 # ws'" by (cases ws) (auto simp: before_cycle_def)
  from assms ws have sp: "service_ports E M" and s: "first_edge E (at_before_port M) e0"
    and b: "back_steps E (e0 # ws')" and nd: "\<not> distinct (map edge_id (e0 # ws'))"
    by (simp_all add: before_cycle_def)
  have cur: "List.find (\<lambda>e. targetHandle e = Str (beforeHandle M)) E = Some e0"
    using s by (simp only: before_start[OF sp] first_edge_def)
  from walk_cycle[OF back_steps_path[OF b], of "{}" N] nd
  have "snd (walk source target E N {} (Some e0)) = Some CircularConnection" by blast
  then show ?thesis
    by (simp add: beforeHooks_def ancestry_def ancestry_loop_walk cur case_prod_unfold)
qed

lemma has_phases_initial: "has_phases [(''after'', []), (''before'', [])]"
  by (simp add: has_phases_def)

lemma resolveHooks_ends:
  assumes "acyclic_graph E" and "identified E"
  shows "\<exists>cfg. resolveHooks MS E N = Inr cfg \<and>
     (\<forall>m\<in>set MS. \<exists>ys zs.
        ancestry E N (beforeHandle m) = (ys, None) \<and> descent E N (afterHandle m) = (zs, None) \<and>
        lookupHooks cfg ''before'' m = Some (rev (map (\<lambda>(node, c). hookOf node) ys)) \<and>
        lookupHooks cfg ''after'' m = Some (map (\<lambda>(node, c). hookOf node) zs))"
proof -
  let ?ys = "\<lambda>m. fst (ancestry E N (beforeHandle m))" and ?zs = "\<lambda>m. fst (descent E N (afterHandle m))"
  let ?B = "\<lambda>m. rev (map (\<lambda>(node, c). hookOf node) (?ys m))"
  let ?A = "\<lambda>m. map (\<lambda>(node, c). hookOf node) (?zs m)"
  have a: "ancestry E N (beforeHandle m) = (?ys m, None)" for m
    using ancestry_ends[OF assms, of N "beforeHandle m"] by (metis prod.collapse)
  have d: "descent E N (afterHandle m) = (?zs m, None)" for m
    using descent_ends[OF assms, of N "afterHandle m"] by (metis prod.collapse)
  have "\<forall>m\<in>set MS. beforeHooks E N m = Inr (?B m) \<and> afterHooks E N m = Inr (?A m)"
  proof
    fix m
    have "beforeHooks E N m = Inr (?B m)" unfolding beforeHooks_def by (subst a) simp
    moreover have "afterHooks E N m = Inr (?A m)" unfolding afterHooks_def by (subst d) simp
    ultimately show "beforeHooks E N m = Inr (?B m) \<and> afterHooks E N m = Inr (?A m)" by simp
  qed
  from resolve_loop_ok[OF has_phases_initial this] obtain cfg where
    r: "resolveHooks MS E N = Inr cfg"
    and lb: "\<forall>m. lookupHooks cfg ''before'' m = (if m \<in> set MS then Some (?B m) else lookupHooks [(''after'', []), (''before'', [])] ''before'' m)"
    and la: "\<forall>m. lookupHooks cfg ''after'' m = (if m \<in> set MS then Some (?A m) else lookupHooks [(''after'', []), (''before'', [])] ''after'' m)"
    unfolding resolveHooks_def by blast
  have "\<forall>m\<in>set MS. \<exists>ys zs.
        ancestry E N (beforeHandle m) = (ys, None) \<and> descent E N (afterHandle m) = (zs, None) \<and>
        lookupHooks cfg ''before'' m = Some (rev (map (\<lambda>(node, c). hookOf node) ys)) \<and>
        lookupHooks cfg ''after'' m = Some (map (\<lambda>(node, c). hookOf node) zs)"
  proof
    fix m assume "m \<in> set MS"
    with lb la have "lookupHooks cfg ''before'' m = Some (?B m)" "lookupHooks cfg ''after'' m = Some (?A m)"
      by simp_all
    with a[of m] d[of m] show "\<exists>ys zs.
        ancestry E N (beforeHandle m) = (ys, None) \<and> descent E N (afterHandle m) = (zs, None) \<and>
        lookupHooks cfg ''before'' m = Some (rev (map (\<lambda>(node, c). hookOf node) ys)) \<and>
        lookupHooks cfg ''after'' m = Some (map (\<lambda>(node, c). hookOf node) zs)" by blast
  qed
  with r show ?thesis by blast
qed

section \<open>Evaluating the scenarios\<close>

lemmas connect_eval = connectionOf_def onConnect_def addEdge_def connectionExists_def getEdgeId_def
  orEmpty_def falsy_def interpolate_def interpolate_opt_def SERVICE_ID_def

lemmas walk_eval = service_ports_def before_walk_def after_walk_def first_edge_def
  no_edge_def at_before_port_def at_after_port_def precedes_def follows_def beforeHandle_def
  afterHandle_def SERVICE_ID_def identified_def objectPrototypeKeys_def

lemmas delete_eval = onNodesDelete_def deleteStep_def getIncomers_def getOutgoers_def
  getConnectedEdges_def createdEdges_def createdEdge_def

lemmas resolve_eval = resolveHooks_def beforeHooks_def afterHooks_def hookOf_def set_hooks_def
  ancestry_def descent_def ancestor_def descendant_def visited_has_def objectPrototypeKeys_def
  findNode_def beforeHandle_def afterHandle_def SERVICE_ID_def

lemma st_nodes_resolveEffect: "st_nodes (resolveEffect MS st) = st_nodes st"
  by (simp add: resolveEffect_def split: sum.splits)

lemma st_edges_resolveEffect: "st_edges (resolveEffect MS st) = st_edges st"
  by (simp add: resolveEffect_def split: sum.splits)

lemma currentHooks_resolveEffect:
  "resolveHooks MS (st_edges st) (st_nodes st) = Inr cfg \<Longrightarrow>
   currentHooks (resolveEffect MS st) = Some cfg"
  by (simp add: resolveEffect_def)

lemma scenario_nodes_eq:
  "scenario_nodes =
     [\<lparr>node_id = ''service'', node_type = SERVICE_NODE_TYPE, data_id = None\<rparr>,
      \<lparr>node_id = ''a'', node_type = HOOK_NODE_TYPE, data_id = Some ''hookA''\<rparr>,
      \<lparr>node_id = ''b'', node_type = HOOK_NODE_TYPE, data_id = Some ''hookB''\<rparr>,
      \<lparr>node_id = ''c'', node_type = HOOK_NODE_TYPE, data_id = Some ''hookC''\<rparr>,
      \<lparr>node_id = ''d'', node_type = HOOK_NODE_TYPE, data_id = Some ''hookD''\<rparr>]"
  by (simp add: scenario_nodes_def addHook_def initialNodes_def SERVICE_ID_def)

lemma before_scenario_eq:
  "before_scenario =
     [\<lparr>edge_id = ''reactflow__edge-aout-servicebefore-GET'', source = ''a'', target = ''service'',
       sourceHandle = Str ''out'', targetHandle = Str ''before-GET''\<rparr>,
      \<lparr>edge_id = ''reactflow__edge-bout-ain'', source = ''b'', target = ''a'',
       sourceHandle = Str ''out'', targetHandle = Str ''in''\<rparr>]"
  by (simp add: before_scenario_def connect_eval)

lemma after_scenario_eq:
  "after_scenario =
     [\<lparr>edge_id = ''reactflow__edge-serviceafter-POST-cin'', source = ''service'', target = ''c'',
       sourceHandle = Str ''after-POST'', targetHandle = Str ''in''\<rparr>,
      \<lparr>edge_id = ''reactflow__edge-cout-din'', source = ''c'', target = ''d'',
       sourceHandle = Str ''out'', targetHandle = Str ''in''\<rparr>]"
  by (simp add: after_scenario_def connect_eval)

lemma cycle_scenario_eq:
  "cycle_scenario =
     [\<lparr>edge_id = ''reactflow__edge-aout-servicebefore-GET'', source = ''a'', target = ''service'',
       sourceHandle = Str ''out'', targetHandle = Str ''before-GET''\<rparr>,
      \<lparr>edge_id = ''reactflow__edge-bout-ain'', source = ''b'', target = ''a'',
       sourceHandle = Str ''out'', targetHandle = Str ''in''\<rparr>,
      \<lparr>edge_id = ''reactflow__edge-cout-bin'', source = ''c'', target = ''b'',
       sourceHandle = Str ''out'', targetHandle = Str ''in''\<rparr>,
      \<lparr>edge_id = ''reactflow__edge-aout-cin'', source = ''a'', target = ''c'',
       sourceHandle = Str ''out'', targetHandle = Str ''in''\<rparr>]"
  by (simp add: cycle_scenario_def connect_eval)

lemma fanin_nodes:
  "st_nodes fanin_state = scenario_nodes"
  by (simp add: fanin_state_def fanin_ops_def applyOps_def applyOp_def st_nodes_resolveEffect
      initialState_def scenario_nodes_def unit_x_def removeNodes_def addHook_def initialNodes_def
      SERVICE_ID_def)

lemma fanin_edges:
  "st_edges fanin_state =
     [\<lparr>edge_id = ''reactflow__edge-aout-servicebefore-GET'', source = ''a'', target = ''service'',
       sourceHandle = Str ''out'', targetHandle = Str ''before-GET''\<rparr>,
      \<lparr>edge_id = ''d->a'', source = ''d'', target = ''a'',
       sourceHandle = Undefined, targetHandle = Undefined\<rparr>,
      \<lparr>edge_id = ''reactflow__edge-bout-ain'', source = ''b'', target = ''a'',
       sourceHandle = Str ''out'', targetHandle = Str ''in''\<rparr>]"
  by (simp add: fanin_state_def fanin_ops_def applyOps_def applyOp_def st_nodes_resolveEffect
      st_edges_resolveEffect initialState_def unit_x_def addHook_def initialNodes_def)
     (simp add: connect_eval delete_eval)

lemma offwalk_nodes: "st_nodes offwalk_state = scenario_nodes"
  by (simp add: offwalk_state_def applyOps_def applyOp_def st_nodes_resolveEffect fanin_nodes)

lemma offwalk_edges:
  "st_edges offwalk_state =
     [\<lparr>edge_id = ''reactflow__edge-aout-servicebefore-GET'', source = ''a'', target = ''service'',
       sourceHandle = Str ''out'', targetHandle = Str ''before-GET''\<rparr>,
      \<lparr>edge_id = ''d->a'', source = ''d'', target = ''a'',
       sourceHandle = Undefined, targetHandle = Undefined\<rparr>,
      \<lparr>edge_id = ''reactflow__edge-bout-ain'', source = ''b'', target = ''a'',
       sourceHandle = Str ''out'', targetHandle = Str ''in''\<rparr>,
      \<lparr>edge_id = ''reactflow__edge-cout-bin'', source = ''c'', target = ''b'',
       sourceHandle = Str ''out'', targetHandle = Str ''in''\<rparr>,
      \<lparr>edge_id = ''reactflow__edge-aout-cin'', source = ''a'', target = ''c'',
       sourceHandle = Str ''out'', targetHandle = Str ''in''\<rparr>]"
  by (simp add: offwalk_state_def applyOps_def applyOp_def st_edges_resolveEffect fanin_edges)
     (simp add: connect_eval)

lemma fanout_after_eq:
  "fanout_after_scenario =
     [\<lparr>edge_id = ''reactflow__edge-serviceafter-POST-cin'', source = ''service'', target = ''c'',
       sourceHandle = Str ''after-POST'', targetHandle = Str ''in''\<rparr>,
      \<lparr>edge_id = ''reactflow__edge-cout-din'', source = ''c'', target = ''d'',
       sourceHandle = Str ''out'', targetHandle = Str ''in''\<rparr>,
      \<lparr>edge_id = ''reactflow__edge-cout-ain'', source = ''c'', target = ''a'',
       sourceHandle = Str ''out'', targetHandle = Str ''in''\<rparr>]"
  by (simp add: fanout_after_scenario_def after_scenario_eq connect_eval)

text \<open>An order of the nodes along which every arc between units goes up shows that
  the graph is acyclic.\<close>

lemma acyclic_graph_rank:
  assumes "\<forall>e\<in>set E. source e \<noteq> SERVICE_ID \<and> target e \<noteq> SERVICE_ID \<longrightarrow>
             (rank (target e) :: nat) < rank (source e)"
  shows "acyclic_graph E"
  unfolding acyclic_graph_def
proof (rule acyclicI_order[where f = rank])
  fix a b assume "(a, b) \<in> unit_arcs E"
  with assms show "rank b < rank a" by (auto simp: unit_arcs_iff)
qed

section \<open>The resolved chains\<close>

text \<open>
  C2. In an acyclic graph, with edges identified by their ids and the port
  \<open>before-M\<close> on the service node, resolution succeeds, the method \<open>M\<close> of the
  method list has one before walk and no other, and the before chain stored for \<open>M\<close>
  is the list of the hooks of the source nodes of the edges of that walk, reversed: the
  walk records the node next to the service first, the chain reports the farthest node
  first.
\<close>

theorem before_chain_resolved:
  assumes "acyclic_graph E" and "identified E" and "service_ports E M" and "M \<in> set MS"
  shows "\<exists>cfg ws. resolveHooks MS E N = Inr cfg \<and> before_walk E M ws \<and>
           (\<forall>ws'. before_walk E M ws' \<longrightarrow> ws' = ws) \<and>
           lookupHooks cfg ''before'' M =
             Some (rev (map (\<lambda>e. hookOf (findNode N (source e))) ws))"
proof -
  from resolveHooks_ends[OF assms(1,2), of MS N] assms(4) obtain cfg ys where
    r: "resolveHooks MS E N = Inr cfg" and a: "ancestry E N (beforeHandle M) = (ys, None)"
    and l: "lookupHooks cfg ''before'' M = Some (rev (map (\<lambda>(node, c). hookOf node) ys))"
    by blast
  note w = ancestry_walk[OF assms(3) a]
  from l have "lookupHooks cfg ''before'' M =
      Some (rev (map (\<lambda>e. hookOf (findNode N (source e))) (map snd ys)))"
    by (simp only: w(2))
  moreover have "\<forall>ws'. before_walk E M ws' \<longrightarrow> ws' = map snd ys"
    using before_walk_unique[OF _ w(1)] by blast
  ultimately show ?thesis using r w(1) by blast
qed

text \<open>
  The scenario: after \<open>a \<rightarrow> service.before-GET\<close> and \<open>b \<rightarrow> a.in\<close>, the before chain
  of \<open>GET\<close> is the hook of \<open>b\<close>, then the hook of \<open>a\<close>. And a graph that the
  editor builds with two edges into \<open>a\<close>, the synthesized edge from \<open>d\<close> before the
  edge from \<open>b\<close>: the walk takes the first, and the chain is the hook of \<open>d\<close>, then
  the hook of \<open>a\<close>.
\<close>

theorem before_chain_resolved_witness:
  "acyclic_graph before_scenario \<and> identified before_scenario \<and>
   service_ports before_scenario ''GET'' \<and> ''GET'' \<in> set [''GET''] \<and>
   before_walk before_scenario ''GET'' before_scenario \<and>
   (\<exists>cfg. resolveHooks [''GET''] before_scenario scenario_nodes = Inr cfg \<and>
      lookupHooks cfg ''before'' ''GET'' = Some [[Some ''hookB''], [Some ''hookA'']]) \<and>
   acyclic_graph (st_edges fanin_state) \<and> identified (st_edges fanin_state) \<and>
   service_ports (st_edges fanin_state) ''GET'' \<and>
   before_walk (st_edges fanin_state) ''GET'' [st_edges fanin_state ! 0, st_edges fanin_state ! 1] \<and>
   (\<exists>cfg. resolveHooks [''GET''] (st_edges fanin_state) (st_nodes fanin_state) = Inr cfg \<and>
      lookupHooks cfg ''before'' ''GET'' = Some [[Some ''hookD''], [Some ''hookA'']])"
proof -
  let ?rank = "\<lambda>k. if k = ''a'' then 0 else (1::nat)"
  let ?F = "st_edges fanin_state"
  have a1: "acyclic_graph before_scenario"
    by (rule acyclic_graph_rank[where rank = ?rank]) (simp add: before_scenario_eq SERVICE_ID_def)
  have i1: "identified before_scenario" by (simp add: before_scenario_eq walk_eval)
  have s1: "service_ports before_scenario ''GET''" by (simp add: before_scenario_eq walk_eval)
  have m: "''GET'' \<in> set [''GET'']" by simp
  have w1: "before_walk before_scenario ''GET'' before_scenario"
    by (simp add: before_scenario_eq walk_eval)
  have c1: "rev (map (\<lambda>e. hookOf (findNode scenario_nodes (source e))) before_scenario)
             = [[Some ''hookB''], [Some ''hookA'']]"
    by (simp add: before_scenario_eq scenario_nodes_eq hookOf_def findNode_def)
  have a2: "acyclic_graph ?F"
    by (rule acyclic_graph_rank[where rank = ?rank]) (simp add: fanin_edges SERVICE_ID_def)
  have i2: "identified ?F" by (simp add: fanin_edges walk_eval)
  have s2: "service_ports ?F ''GET''" by (simp add: fanin_edges walk_eval)
  have w2: "before_walk ?F ''GET'' [?F ! 0, ?F ! 1]" by (simp add: fanin_edges walk_eval)
  have c2: "rev (map (\<lambda>e. hookOf (findNode (st_nodes fanin_state) (source e))) [?F ! 0, ?F ! 1])
             = [[Some ''hookD''], [Some ''hookA'']]"
    by (simp add: fanin_edges fanin_nodes scenario_nodes_eq hookOf_def findNode_def)
  from before_chain_resolved[OF a1 i1 s1 m, of scenario_nodes] obtain cfg ws where
    r1: "resolveHooks [''GET''] before_scenario scenario_nodes = Inr cfg"
    "before_walk before_scenario ''GET'' ws"
    "lookupHooks cfg ''before'' ''GET'' =
       Some (rev (map (\<lambda>e. hookOf (findNode scenario_nodes (source e))) ws))" by blast
  from before_walk_unique[OF r1(2) w1] r1(1,3) c1 have
    e1: "\<exists>cfg. resolveHooks [''GET''] before_scenario scenario_nodes = Inr cfg \<and>
      lookupHooks cfg ''before'' ''GET'' = Some [[Some ''hookB''], [Some ''hookA'']]" by simp
  from before_chain_resolved[OF a2 i2 s2 m, of "st_nodes fanin_state"] obtain cfg' ws' where
    r2: "resolveHooks [''GET''] ?F (st_nodes fanin_state) = Inr cfg'"
    "before_walk ?F ''GET'' ws'"
    "lookupHooks cfg' ''before'' ''GET'' =
       Some (rev (map (\<lambda>e. hookOf (findNode (st_nodes fanin_state) (source e))) ws'))" by blast
  from before_walk_unique[OF r2(2) w2] r2(1,3) c2 have
    e2: "\<exists>cfg. resolveHooks [''GET''] ?F (st_nodes fanin_state) = Inr cfg \<and>
      lookupHooks cfg ''before'' ''GET'' = Some [[Some ''hookD''], [Some ''hookA'']]" by simp
  from a1 i1 s1 m w1 e1 a2 i2 s2 w2 e2 show ?thesis by blast
qed

text \<open>
  C3. In an acyclic graph, with edges identified by their ids and the port
  \<open>after-M\<close> on the service node, resolution succeeds, the method \<open>M\<close> of the
  method list has one after walk and no other, and the after chain stored for \<open>M\<close> is
  the list of the hooks of the target nodes of the edges of that walk, in the order of
  the walk: the node next to the service first, without reversal.
\<close>

theorem after_chain_resolved:
  assumes "acyclic_graph E" and "identified E" and "service_ports E M" and "M \<in> set MS"
  shows "\<exists>cfg ws. resolveHooks MS E N = Inr cfg \<and> after_walk E M ws \<and>
           (\<forall>ws'. after_walk E M ws' \<longrightarrow> ws' = ws) \<and>
           lookupHooks cfg ''after'' M =
             Some (map (\<lambda>e. hookOf (findNode N (target e))) ws)"
proof -
  from resolveHooks_ends[OF assms(1,2), of MS N] assms(4) obtain cfg zs where
    r: "resolveHooks MS E N = Inr cfg" and d: "descent E N (afterHandle M) = (zs, None)"
    and l: "lookupHooks cfg ''after'' M = Some (map (\<lambda>(node, c). hookOf node) zs)"
    by blast
  note w = descent_walk[OF assms(3) d]
  from l have "lookupHooks cfg ''after'' M =
      Some (map (\<lambda>e. hookOf (findNode N (target e))) (map snd zs))"
    by (simp only: w(2))
  moreover have "\<forall>ws'. after_walk E M ws' \<longrightarrow> ws' = map snd zs"
    using after_walk_unique[OF _ w(1)] by blast
  ultimately show ?thesis using r w(1) by blast
qed

text \<open>
  The scenario: after \<open>service.after-POST \<rightarrow> c\<close> and \<open>c.out \<rightarrow> d.in\<close>, the after
  chain of \<open>POST\<close> is the hook of \<open>c\<close>, then the hook of \<open>d\<close>. When \<open>c.out\<close> is
  then also connected to \<open>a.in\<close>, the walk takes the first edge out of \<open>c\<close>, and
  the chain stays the hook of \<open>c\<close>, then the hook of \<open>d\<close>.
\<close>

theorem after_chain_resolved_witness:
  "acyclic_graph after_scenario \<and> identified after_scenario \<and>
   service_ports after_scenario ''POST'' \<and> ''POST'' \<in> set [''POST''] \<and>
   after_walk after_scenario ''POST'' after_scenario \<and>
   (\<exists>cfg. resolveHooks [''POST''] after_scenario scenario_nodes = Inr cfg \<and>
      lookupHooks cfg ''after'' ''POST'' = Some [[Some ''hookC''], [Some ''hookD'']]) \<and>
   acyclic_graph fanout_after_scenario \<and> identified fanout_after_scenario \<and>
   service_ports fanout_after_scenario ''POST'' \<and>
   after_walk fanout_after_scenario ''POST'' after_scenario \<and>
   (\<exists>cfg. resolveHooks [''POST''] fanout_after_scenario scenario_nodes = Inr cfg \<and>
      lookupHooks cfg ''after'' ''POST'' = Some [[Some ''hookC''], [Some ''hookD'']])"
proof -
  let ?rank = "\<lambda>k. if k = ''c'' then 1 else (0::nat)"
  have a1: "acyclic_graph after_scenario"
    by (rule acyclic_graph_rank[where rank = ?rank]) (simp add: after_scenario_eq SERVICE_ID_def)
  have i1: "identified after_scenario" by (simp add: after_scenario_eq walk_eval)
  have s1: "service_ports after_scenario ''POST''" by (simp add: after_scenario_eq walk_eval)
  have m: "''POST'' \<in> set [''POST'']" by simp
  have w1: "after_walk after_scenario ''POST'' after_scenario"
    by (simp add: after_scenario_eq walk_eval)
  have c: "map (\<lambda>e. hookOf (findNode scenario_nodes (target e))) after_scenario
             = [[Some ''hookC''], [Some ''hookD'']]"
    by (simp add: after_scenario_eq scenario_nodes_eq hookOf_def findNode_def)
  have a2: "acyclic_graph fanout_after_scenario"
    by (rule acyclic_graph_rank[where rank = ?rank]) (simp add: fanout_after_eq SERVICE_ID_def)
  have i2: "identified fanout_after_scenario" by (simp add: fanout_after_eq walk_eval)
  have s2: "service_ports fanout_after_scenario ''POST''" by (simp add: fanout_after_eq walk_eval)
  have w2: "after_walk fanout_after_scenario ''POST'' after_scenario"
    by (simp add: fanout_after_eq after_scenario_eq walk_eval)
  from after_chain_resolved[OF a1 i1 s1 m, of scenario_nodes] obtain cfg ws where
    r1: "resolveHooks [''POST''] after_scenario scenario_nodes = Inr cfg"
    "after_walk after_scenario ''POST'' ws"
    "lookupHooks cfg ''after'' ''POST'' =
       Some (map (\<lambda>e. hookOf (findNode scenario_nodes (target e))) ws)" by blast
  from after_walk_unique[OF r1(2) w1] r1(1,3) c have
    e1: "\<exists>cfg. resolveHooks [''POST''] after_scenario scenario_nodes = Inr cfg \<and>
      lookupHooks cfg ''after'' ''POST'' = Some [[Some ''hookC''], [Some ''hookD'']]" by simp
  from after_chain_resolved[OF a2 i2 s2 m, of scenario_nodes] obtain cfg' ws' where
    r2: "resolveHooks [''POST''] fanout_after_scenario scenario_nodes = Inr cfg'"
    "after_walk fanout_after_scenario ''POST'' ws'"
    "lookupHooks cfg' ''after'' ''POST'' =
       Some (map (\<lambda>e. hookOf (findNode scenario_nodes (target e))) ws')" by blast
  from after_walk_unique[OF r2(2) w2] r2(1,3) c have
    e2: "\<exists>cfg. resolveHooks [''POST''] fanout_after_scenario scenario_nodes = Inr cfg \<and>
      lookupHooks cfg ''after'' ''POST'' = Some [[Some ''hookC''], [Some ''hookD'']]" by simp
  from a1 i1 s1 m w1 e1 a2 i2 s2 w2 e2 show ?thesis by blast
qed

text \<open>
  C4, as stated, fails: in the graph below, built by the editor, the unit \<open>a\<close> sits
  on the port \<open>before-GET\<close> and lies on the cycle \<open>a \<rightarrow> c \<rightarrow> b \<rightarrow> a\<close>, and
  resolution succeeds. Two edges end at \<open>a\<close>; the walk takes the first, the edge from
  \<open>d\<close> that deleting \<open>x\<close> synthesized, and never meets the cycle: the chain is the
  hook of \<open>d\<close>, then the hook of \<open>a\<close>, and it replaces the configuration held before.
\<close>

theorem cycle_beside_walk_counterexample:
  "at_before_port ''GET'' (st_edges offwalk_state ! 0) \<and>
   source (st_edges offwalk_state ! 0) = ''a'' \<and>
   (''a'', ''a'') \<in> (unit_arcs (st_edges offwalk_state))\<^sup>+ \<and>
   resolveHooks [''GET''] (st_edges offwalk_state) (st_nodes offwalk_state) =
     Inr [(''after'', [(''GET'', [])]), (''before'', [(''GET'', [[Some ''hookD''], [Some ''hookA'']])])] \<and>
   currentHooks offwalk_state =
     Some [(''after'', [(''GET'', [])]), (''before'', [(''GET'', [[Some ''hookD''], [Some ''hookA'']])])]"
proof -
  let ?E = "st_edges offwalk_state"
  have p: "at_before_port ''GET'' (?E ! 0)" "source (?E ! 0) = ''a''"
    by (simp_all add: offwalk_edges at_before_port_def beforeHandle_def SERVICE_ID_def)
  have "(''a'', ''c'') \<in> unit_arcs ?E" "(''c'', ''b'') \<in> unit_arcs ?E" "(''b'', ''a'') \<in> unit_arcs ?E"
    by (simp_all add: offwalk_edges unit_arcs_def SERVICE_ID_def)
  then have c: "(''a'', ''a'') \<in> (unit_arcs ?E)\<^sup>+" by (meson trancl.intros)
  have r: "resolveHooks [''GET''] ?E (st_nodes offwalk_state) =
     Inr [(''after'', [(''GET'', [])]), (''before'', [(''GET'', [[Some ''hookD''], [Some ''hookA'']])])]"
    by (simp add: offwalk_edges offwalk_nodes scenario_nodes_eq resolve_eval)
  define st2 where "st2 =
      structural (Connect (connectionOf ''a'' ''out'' ''c'' ''in''))
        (applyOps [''GET''] fanin_state [Connect (connectionOf ''c'' ''out'' ''b'' ''in'')])"
  have o: "offwalk_state = resolveEffect [''GET''] st2"
    by (simp add: st2_def offwalk_state_def applyOps_def applyOp_def)
  have "st_edges st2 = st_edges offwalk_state" "st_nodes st2 = st_nodes offwalk_state"
    by (simp_all add: o st_edges_resolveEffect st_nodes_resolveEffect)
  with r have "resolveHooks [''GET''] (st_edges st2) (st_nodes st2) =
     Inr [(''after'', [(''GET'', [])]), (''before'', [(''GET'', [[Some ''hookD''], [Some ''hookA'']])])]"
    by simp
  from currentHooks_resolveEffect[OF this] have "currentHooks offwalk_state =
     Some [(''after'', [(''GET'', [])]), (''before'', [(''GET'', [[Some ''hookD''], [Some ''hookA'']])])]"
    by (simp only: o)
  with p c r show ?thesis by blast
qed

text \<open>
  C4, amended. When the before walk of a method \<open>M\<close> of the method list, which at
  every node takes the first edge of the edge list into it, comes back to an edge id it
  went through, resolving the hooks throws the circular-connection error: no
  configuration is produced for any method, and the effect leaves the state, with the
  configuration resolved before, as it was.
\<close>

theorem cycle_aborts_resolution:
  assumes "before_cycle (st_edges st) M ws" and "M \<in> set MS"
  shows "resolveHooks MS (st_edges st) (st_nodes st) = Inl CircularConnection \<and>
         resolveEffect MS st = st"
proof -
  have "beforeHooks (st_edges st) (st_nodes st) M = Inl CircularConnection"
    by (rule beforeHooks_cycle[OF assms(1)])
  then have "resolveHooks MS (st_edges st) (st_nodes st) = Inl CircularConnection"
    unfolding resolveHooks_def using resolve_loop_error[OF assms(2)] by blast
  then show ?thesis by (simp add: resolveEffect_def)
qed

text \<open>
  A cycle \<open>a \<rightarrow> c \<rightarrow> b \<rightarrow> a\<close> behind the port \<open>before-GET\<close>: resolution fails
  although the method \<open>POST\<close>, resolved first, has no cycle, and the configuration
  held before stays.
\<close>

theorem cycle_aborts_resolution_witness:
  "before_cycle (st_edges cycle_state) ''GET''
     [cycle_scenario ! 0, cycle_scenario ! 1, cycle_scenario ! 2, cycle_scenario ! 3, cycle_scenario ! 1] \<and>
   ''GET'' \<in> set [''POST'', ''GET''] \<and>
   resolveHooks [''POST'', ''GET''] (st_edges cycle_state) (st_nodes cycle_state) = Inl CircularConnection \<and>
   currentHooks (resolveEffect [''POST'', ''GET''] cycle_state) =
     Some [(''after'', [(''POST'', []), (''GET'', [])]),
           (''before'', [(''POST'', []), (''GET'', [[Some ''hookA'']])])]"
proof -
  have h: "before_cycle (st_edges cycle_state) ''GET''
     [cycle_scenario ! 0, cycle_scenario ! 1, cycle_scenario ! 2, cycle_scenario ! 3, cycle_scenario ! 1]"
    by (simp add: cycle_state_def cycle_scenario_eq before_cycle_def service_ports_def first_edge_def
        at_before_port_def precedes_def beforeHandle_def afterHandle_def SERVICE_ID_def)
  have m: "''GET'' \<in> set [''POST'', ''GET'']" by simp
  have c: "currentHooks cycle_state = Some [(''after'', [(''POST'', []), (''GET'', [])]),
           (''before'', [(''POST'', []), (''GET'', [[Some ''hookA'']])])]"
    by (simp add: cycle_state_def)
  from cycle_aborts_resolution[OF h m] h m c show ?thesis by simp
qed

section \<open>Fan-out and single visits\<close>

lemma fanout_scenario_eq:
  "fanout_scenario =
     [\<lparr>edge_id = ''reactflow__edge-aout-servicebefore-GET'', source = ''a'', target = ''service'',
       sourceHandle = Str ''out'', targetHandle = Str ''before-GET''\<rparr>,
      \<lparr>edge_id = ''reactflow__edge-bout-ain'', source = ''b'', target = ''a'',
       sourceHandle = Str ''out'', targetHandle = Str ''in''\<rparr>,
      \<lparr>edge_id = ''reactflow__edge-aout-cin'', source = ''a'', target = ''c'',
       sourceHandle = Str ''out'', targetHandle = Str ''in''\<rparr>]"
  by (simp add: fanout_scenario_def before_scenario_eq connect_eval)

lemma addEdge_keeps: "set edges \<subseteq> set (addEdge c edges)"
  by (auto simp: addEdge_def Let_def split: option.splits)

lemma walk_nodes_once:
  "snd (walk src tgt E N v cur) = None \<Longrightarrow>
   distinct (map (\<lambda>y. src (snd y)) (fst (walk src tgt E N v cur)))"
proof -
  assume "snd (walk src tgt E N v cur) = None"
  then have "walk src tgt E N v cur = (fst (walk src tgt E N v cur), None)"
    by (metis prod.collapse)
  from walk_success_conv[OF this]
  have "chain (step src tgt E) cur (map snd (fst (walk src tgt E N v cur)))" by simp
  from chain_distinct_src[OF this] show ?thesis by (simp add: comp_def)
qed

lemma onConnect_unit:
  assumes "u \<noteq> SERVICE_ID" "u \<noteq> []" "t \<noteq> []"
  shows "onConnect (connectionOf u ''out'' t ''in'') E =
           filter (\<lambda>e. target e @ ''-'' @ interpolate (targetHandle e) \<noteq> t @ ''-in'') E @ [fanEdge u t]"
proof -
  let ?F = "filter (\<lambda>e. target e @ ''-'' @ interpolate (targetHandle e) \<noteq> t @ ''-in'') E"
  have none: "\<And>e. e \<in> set ?F \<Longrightarrow> \<not> (target e = t \<and> targetHandle e = Str ''in'')"
    by (auto simp: interpolate_def)
  have "\<not> connectionExists (fanEdge u t) ?F"
    unfolding connectionExists_def list_ex_iff using none by (auto simp: fanEdge_def falsy_def orEmpty_def)
  then show ?thesis
    using assms by (simp add: onConnect_def addEdge_def connectionOf_def interpolate_def
        interpolate_opt_def fanEdge_def)
qed

lemma connectAll_snoc:
  "connectAll u (ts @ [t]) E = onConnect (connectionOf u ''out'' t ''in'') (connectAll u ts E)"
  by (simp add: connectAll_def)

lemma connectAll_has:
  assumes "u \<noteq> SERVICE_ID" "u \<noteq> []"
  shows "distinct ts \<Longrightarrow> [] \<notin> set ts \<Longrightarrow> \<forall>t\<in>set ts. fanEdge u t \<in> set (connectAll u ts E)"
proof (induction ts rule: rev_induct)
  case Nil
  then show ?case by simp
next
  case (snoc t ts)
  from snoc.prems have d: "distinct ts" and nt: "t \<notin> set ts" and ne: "[] \<notin> set ts" and t: "t \<noteq> []"
    by auto
  note oc = onConnect_unit[OF assms t, of "connectAll u ts E"]
  show ?case
  proof
    fix x assume x: "x \<in> set (ts @ [t])"
    show "fanEdge u x \<in> set (connectAll u (ts @ [t]) E)"
    proof (cases "x = t")
      case True
      then show ?thesis by (simp add: connectAll_snoc oc)
    next
      case False
      with x have xs: "x \<in> set ts" by simp
      with snoc.IH[OF d ne] have "fanEdge u x \<in> set (connectAll u ts E)" by blast
      moreover have "target (fanEdge u x) @ ''-'' @ interpolate (targetHandle (fanEdge u x)) \<noteq> t @ ''-in''"
        using False by (simp add: fanEdge_def interpolate_def)
      ultimately show ?thesis by (simp add: connectAll_snoc oc)
    qed
  qed
qed

lemma connectAll_count:
  assumes "u \<noteq> SERVICE_ID" "u \<noteq> []" "distinct ts" "[] \<notin> set ts"
  shows "length ts \<le>
           length (filter (\<lambda>e. source e = u \<and> sourceHandle e = Str ''out'') (connectAll u ts E))"
proof -
  let ?P = "\<lambda>e. source e = u \<and> sourceHandle e = Str ''out''"
  have inj: "inj_on (fanEdge u) (set ts)" by (rule inj_onI) (simp add: fanEdge_def)
  have "fanEdge u ` set ts \<subseteq> set (filter ?P (connectAll u ts E))"
    using connectAll_has[OF assms, of E] by (auto simp: fanEdge_def)
  then have "card (fanEdge u ` set ts) \<le> card (set (filter ?P (connectAll u ts E)))"
    by (rule card_mono[rotated]) simp
  moreover have "card (fanEdge u ` set ts) = length ts"
    using inj assms(3) by (simp add: card_image distinct_card)
  moreover have "card (set (filter ?P (connectAll u ts E))) \<le> length (filter ?P (connectAll u ts E))"
    by (rule card_length)
  ultimately show ?thesis by simp
qed

text \<open>
  C8, as stated, fails in its parenthesis: connecting \<open>b.out\<close> to \<open>c.in\<close> removes
  the edge from \<open>a.out\<close> to \<open>c.in\<close>, an edge at the output port of a unit.
\<close>

theorem connect_evicts_unit_output_counterexample:
  "filter (\<lambda>e. source e = ''a'' \<and> sourceHandle e = Str ''out'')
     (onConnect (connectionOf ''a'' ''out'' ''c'' ''in'') []) = [fanEdge ''a'' ''c''] \<and>
   filter (\<lambda>e. source e = ''a'' \<and> sourceHandle e = Str ''out'')
     (onConnect (connectionOf ''b'' ''out'' ''c'' ''in'')
        (onConnect (connectionOf ''a'' ''out'' ''c'' ''in'') [])) = []"
  by (simp add: connect_eval fanEdge_def)

text \<open>
  C8, amended. The output of a unit holds any number of edges at once: when it is
  connected to the inputs of \<open>n\<close> different nodes, one after the other, all \<open>n\<close>
  edges are in the graph afterwards. A connect removes no edge but those it selects by
  the handle of the service output (when the connection leaves the service) or by the
  target port (otherwise), so it removes an edge that leaves a unit only when that edge
  ends at the port the new edge ends at. A traversal that ends without throwing goes
  through every node at most once: the nodes it looks up have distinct ids.
\<close>

theorem fanout_kept_nodes_once:
  "(u \<noteq> SERVICE_ID \<and> u \<noteq> [] \<and> distinct ts \<and> [] \<notin> set ts \<longrightarrow>
      (\<forall>t\<in>set ts. fanEdge u t \<in> set (connectAll u ts E)) \<and>
      length ts \<le>
        length (filter (\<lambda>e. source e = u \<and> sourceHandle e = Str ''out'') (connectAll u ts E))) \<and>
   (\<forall>e\<in>set E.
      (if conn_source c = Some SERVICE_ID
       then sourceHandle e \<noteq> conn_sourceHandle c
       else target e @ ''-'' @ interpolate (targetHandle e) \<noteq>
            interpolate_opt (conn_target c) @ ''-'' @ interpolate (conn_targetHandle c))
      \<longrightarrow> e \<in> set (onConnect c E)) \<and>
   (snd (ancestry E N h) = None \<longrightarrow>
      distinct (map (\<lambda>y. source (snd y)) (fst (ancestry E N h)))) \<and>
   (snd (descent E N h) = None \<longrightarrow>
      distinct (map (\<lambda>y. target (snd y)) (fst (descent E N h))))"
proof (intro conjI ballI impI)
  assume a: "u \<noteq> SERVICE_ID \<and> u \<noteq> [] \<and> distinct ts \<and> [] \<notin> set ts"
  fix t assume "t \<in> set ts"
  with a connectAll_has[of u ts E] show "fanEdge u t \<in> set (connectAll u ts E)" by blast
next
  assume a: "u \<noteq> SERVICE_ID \<and> u \<noteq> [] \<and> distinct ts \<and> [] \<notin> set ts"
  then show "length ts \<le>
        length (filter (\<lambda>e. source e = u \<and> sourceHandle e = Str ''out'') (connectAll u ts E))"
    using connectAll_count[of u ts E] by blast
next
  fix e assume "e \<in> set E"
    and "if conn_source c = Some SERVICE_ID
       then sourceHandle e \<noteq> conn_sourceHandle c
       else target e @ ''-'' @ interpolate (targetHandle e) \<noteq>
            interpolate_opt (conn_target c) @ ''-'' @ interpolate (conn_targetHandle c)"
  then have "e \<in> set (filter (\<lambda>edge.
          if conn_source c = Some SERVICE_ID
          then sourceHandle edge \<noteq> conn_sourceHandle c
          else target edge @ ''-'' @ interpolate (targetHandle edge) \<noteq>
               interpolate_opt (conn_target c) @ ''-'' @ interpolate (conn_targetHandle c)) E)"
    by simp
  then show "e \<in> set (onConnect c E)"
    unfolding onConnect_def by (rule subsetD[OF addEdge_keeps])
next
  assume "snd (ancestry E N h) = None"
  then show "distinct (map (\<lambda>y. source (snd y)) (fst (ancestry E N h)))"
    unfolding ancestry_def ancestry_loop_walk by (rule walk_nodes_once)
next
  assume "snd (descent E N h) = None"
  then show "distinct (map (\<lambda>y. target (snd y)) (fst (descent E N h)))"
    unfolding descent_def descent_loop_walk by (rule walk_nodes_once)
qed

lemmas loop_eval = ancestry_def descent_def ancestor_def descendant_def visited_has_def
  objectPrototypeKeys_def findNode_def beforeHandle_def afterHandle_def SERVICE_ID_def

lemma fan_anc: "ancestry fanout_scenario scenario_nodes (beforeHandle ''GET'') =
   ([(Some \<lparr>node_id = ''a'', node_type = HOOK_NODE_TYPE, data_id = Some ''hookA''\<rparr>, fanout_scenario ! 0),
     (Some \<lparr>node_id = ''b'', node_type = HOOK_NODE_TYPE, data_id = Some ''hookB''\<rparr>, fanout_scenario ! 1)], None)"
  by (simp add: fanout_scenario_eq scenario_nodes_eq loop_eval)

lemma aft_desc: "descent after_scenario scenario_nodes (afterHandle ''POST'') =
   ([(Some \<lparr>node_id = ''c'', node_type = HOOK_NODE_TYPE, data_id = Some ''hookC''\<rparr>, after_scenario ! 0),
     (Some \<lparr>node_id = ''d'', node_type = HOOK_NODE_TYPE, data_id = Some ''hookD''\<rparr>, after_scenario ! 1)], None)"
  by (simp add: after_scenario_eq scenario_nodes_eq loop_eval)

text \<open>
  Connecting \<open>a.out\<close>, which is connected to the service, to the inputs of \<open>c\<close>,
  \<open>d\<close> and \<open>b\<close> leaves four edges at \<open>a.out\<close>; the first of these connects keeps
  the edge from \<open>a.out\<close> to the service; the before walk of \<open>GET\<close> in the graph with
  the fan-out visits \<open>a\<close>, then \<open>b\<close>.
\<close>

theorem fanout_kept_nodes_once_witness:
  "''a'' \<noteq> SERVICE_ID \<and> ''a'' \<noteq> [] \<and> distinct [''c'', ''d'', ''b''] \<and> [] \<notin> set [''c'', ''d'', ''b''] \<and>
   fanEdge ''a'' ''c'' \<in> set (connectAll ''a'' [''c'', ''d'', ''b''] before_scenario) \<and>
   fanEdge ''a'' ''d'' \<in> set (connectAll ''a'' [''c'', ''d'', ''b''] before_scenario) \<and>
   fanEdge ''a'' ''b'' \<in> set (connectAll ''a'' [''c'', ''d'', ''b''] before_scenario) \<and>
   length (filter (\<lambda>e. source e = ''a'' \<and> sourceHandle e = Str ''out'')
     (connectAll ''a'' [''c'', ''d'', ''b''] before_scenario)) = 4 \<and>
   before_scenario ! 0 \<in> set (onConnect (connectionOf ''a'' ''out'' ''c'' ''in'') before_scenario) \<and>
   snd (ancestry fanout_scenario scenario_nodes (beforeHandle ''GET'')) = None \<and>
   map (\<lambda>y. source (snd y)) (fst (ancestry fanout_scenario scenario_nodes (beforeHandle ''GET''))) = [''a'', ''b''] \<and>
   distinct (map (\<lambda>y. source (snd y)) (fst (ancestry fanout_scenario scenario_nodes (beforeHandle ''GET'')))) \<and>
   snd (descent after_scenario scenario_nodes (afterHandle ''POST'')) = None \<and>
   distinct (map (\<lambda>y. target (snd y)) (fst (descent after_scenario scenario_nodes (afterHandle ''POST''))))"
proof -
  let ?c = "connectionOf ''a'' ''out'' ''c'' ''in''"
  let ?ts = "[''c'', ''d'', ''b'']"
  have u: "''a'' \<noteq> SERVICE_ID \<and> ''a'' \<noteq> [] \<and> distinct ?ts \<and> [] \<notin> set ?ts"
    by (simp add: SERVICE_ID_def)
  have k: "before_scenario ! 0 \<in> set before_scenario" by (simp add: before_scenario_eq)
  have s: "\<not> (conn_source ?c = Some SERVICE_ID)" by (simp add: connectionOf_def SERVICE_ID_def)
  have d: "target (before_scenario ! 0) @ ''-'' @ interpolate (targetHandle (before_scenario ! 0)) \<noteq>
            interpolate_opt (conn_target ?c) @ ''-'' @ interpolate (conn_targetHandle ?c)"
    by (simp add: before_scenario_eq connectionOf_def interpolate_def interpolate_opt_def)
  have a: "snd (ancestry fanout_scenario scenario_nodes (beforeHandle ''GET'')) = None"
    by (simp add: fan_anc)
  have b: "snd (descent after_scenario scenario_nodes (afterHandle ''POST'')) = None"
    by (simp add: aft_desc)
  have n: "length (filter (\<lambda>e. source e = ''a'' \<and> sourceHandle e = Str ''out'')
     (connectAll ''a'' ?ts before_scenario)) = 4"
    by (simp add: connectAll_def before_scenario_eq connect_eval)
  have m: "map (\<lambda>y. source (snd y)) (fst (ancestry fanout_scenario scenario_nodes (beforeHandle ''GET''))) = [''a'', ''b'']"
    unfolding fan_anc by (simp add: fanout_scenario_eq)
  from fanout_kept_nodes_once[where u = "''a''" and ts = ?ts and E = before_scenario and c = ?c]
       fanout_kept_nodes_once[where E = fanout_scenario and N = scenario_nodes and h = "beforeHandle ''GET''"]
       fanout_kept_nodes_once[where E = after_scenario and N = scenario_nodes and h = "afterHandle ''POST''"]
       u k s d a b n m
  show ?thesis by (simp only: if_False simp_thms list.set ball_simps insert_iff empty_iff)
qed

section \<open>Arity of the input ports under connect\<close>

text \<open>
  A connection that does not leave the service, between nodes and to a handle with
  non-empty names, leaves exactly one edge at its target port, the new one; a connection
  that leaves the service leaves exactly one edge with its source handle, the new one.
\<close>

lemma onConnect_unit_source_single:
  assumes "s \<noteq> SERVICE_ID" "s \<noteq> []" "t \<noteq> []" "th \<noteq> []"
  shows "filter (\<lambda>e. target e = t \<and> targetHandle e = Str th)
           (onConnect \<lparr>conn_source = Some s, conn_sourceHandle = sh,
                       conn_target = Some t, conn_targetHandle = Str th\<rparr> E) =
         [\<lparr>edge_id = getEdgeId s sh t (Str th), source = s, target = t,
           sourceHandle = sh, targetHandle = Str th\<rparr>]"
proof -
  let ?F = "filter (\<lambda>edge. target edge @ ''-'' @ interpolate (targetHandle edge) \<noteq>
               t @ ''-'' @ th) E"
  let ?new = "\<lparr>edge_id = getEdgeId s sh t (Str th), source = s, target = t,
           sourceHandle = sh, targetHandle = Str th\<rparr>"
  have none: "\<And>e. e \<in> set ?F \<Longrightarrow> \<not> (target e = t \<and> targetHandle e = Str th)"
    by (auto simp: interpolate_def)
  then have f: "filter (\<lambda>e. target e = t \<and> targetHandle e = Str th) ?F = []"
    by (simp only: filter_empty_conv) blast
  have "\<not> connectionExists ?new ?F"
    unfolding connectionExists_def list_ex_iff using none assms(4) by (auto simp: falsy_def orEmpty_def)
  then have "onConnect \<lparr>conn_source = Some s, conn_sourceHandle = sh,
                       conn_target = Some t, conn_targetHandle = Str th\<rparr> E = ?F @ [?new]"
    using assms by (simp add: onConnect_def addEdge_def interpolate_def interpolate_opt_def)
  with f show ?thesis by simp
qed

lemma onConnect_service_source_single:
  assumes "t \<noteq> []" "sh \<noteq> []"
  shows "filter (\<lambda>e. sourceHandle e = Str sh)
           (onConnect \<lparr>conn_source = Some SERVICE_ID, conn_sourceHandle = Str sh,
                       conn_target = Some t, conn_targetHandle = th\<rparr> E) =
         [\<lparr>edge_id = getEdgeId SERVICE_ID (Str sh) t th, source = SERVICE_ID, target = t,
           sourceHandle = Str sh, targetHandle = th\<rparr>]"
proof -
  let ?F = "filter (\<lambda>edge. sourceHandle edge \<noteq> Str sh) E"
  let ?new = "\<lparr>edge_id = getEdgeId SERVICE_ID (Str sh) t th, source = SERVICE_ID, target = t,
           sourceHandle = Str sh, targetHandle = th\<rparr>"
  have f: "filter (\<lambda>e. sourceHandle e = Str sh) ?F = []"
    by (simp add: filter_empty_conv)
  have "\<not> connectionExists ?new ?F"
    unfolding connectionExists_def list_ex_iff using assms(2) by (auto simp: falsy_def orEmpty_def)
  moreover have "SERVICE_ID \<noteq> []" by (simp add: SERVICE_ID_def)
  ultimately have "onConnect \<lparr>conn_source = Some SERVICE_ID, conn_sourceHandle = Str sh,
                       conn_target = Some t, conn_targetHandle = th\<rparr> E = ?F @ [?new]"
    using assms by (simp add: onConnect_def addEdge_def)
  with f show ?thesis by simp
qed

text \<open>
  C1. Connecting the service output \<open>after-GET\<close> to the input of \<open>c\<close>, which the
  edge from \<open>b\<close> occupies, removes the edges with the source handle \<open>after-GET\<close>
  only: afterwards two edges end at the input port of \<open>c\<close>.
\<close>

theorem connect_from_service_keeps_target_edge:
  "filter (\<lambda>e. target e = ''c'' \<and> targetHandle e = Str ''in'') arity_scenario =
     [\<lparr>edge_id = ''reactflow__edge-bout-cin'', source = ''b'', target = ''c'',
       sourceHandle = Str ''out'', targetHandle = Str ''in''\<rparr>,
      \<lparr>edge_id = ''reactflow__edge-serviceafter-GET-cin'', source = ''service'', target = ''c'',
       sourceHandle = Str ''after-GET'', targetHandle = Str ''in''\<rparr>]"
  by (simp add: arity_scenario_def connect_eval)

section \<open>Deleting nodes\<close>

lemma rewire_scenario_eq:
  "rewire_scenario =
     [\<lparr>edge_id = ''reactflow__edge-serviceafter-GET-ain'', source = ''service'', target = ''a'',
       sourceHandle = Str ''after-GET'', targetHandle = Str ''in''\<rparr>,
      \<lparr>edge_id = ''reactflow__edge-aout-cin'', source = ''a'', target = ''c'',
       sourceHandle = Str ''out'', targetHandle = Str ''in''\<rparr>,
      \<lparr>edge_id = ''reactflow__edge-aout-din'', source = ''a'', target = ''d'',
       sourceHandle = Str ''out'', targetHandle = Str ''in''\<rparr>]"
  by (simp add: rewire_scenario_def connect_eval)

lemma rewire_result:
  "onNodesDelete [unit_a] scenario_nodes rewire_scenario =
     [\<lparr>edge_id = ''service->c'', source = ''service'', target = ''c'',
       sourceHandle = Undefined, targetHandle = Undefined\<rparr>,
      \<lparr>edge_id = ''service->d'', source = ''service'', target = ''d'',
       sourceHandle = Undefined, targetHandle = Undefined\<rparr>]"
  by (simp add: rewire_scenario_eq scenario_nodes_eq unit_a_def delete_eval)

text \<open>
  C9, as stated, fails: deleting \<open>a\<close>, fed by the service and fanning out to \<open>c\<close>
  and \<open>d\<close>, leaves two synthesized edges that leave the service node.
\<close>

theorem delete_evicts_nothing_counterexample:
  "\<not> length (filter (\<lambda>e. source e = SERVICE_ID \<and> sourceHandle e = Undefined)
        (onNodesDelete [unit_a] scenario_nodes rewire_scenario)) \<le> 1"
  by (simp add: rewire_result SERVICE_ID_def)

lemma onNodesDelete_single:
  "onNodesDelete [node] nodes edges =
     filter (\<lambda>e. source e \<noteq> node_id node \<and> target e \<noteq> node_id node) edges @
     createdEdges (getIncomers node nodes edges) (getOutgoers node nodes edges)"
proof -
  have "set xs \<subseteq> set edges \<Longrightarrow>
        map snd (filter (\<lambda>(orig, edge). \<not> (orig \<and> edge \<in> set (getConnectedEdges [node] edges)))
          (map (Pair True) xs))
        = filter (\<lambda>e. source e \<noteq> node_id node \<and> target e \<noteq> node_id node) xs" for xs
    by (induction xs) (auto simp: getConnectedEdges_def)
  from this[of edges] show ?thesis
    by (simp add: onNodesDelete_def deleteStep_def Let_def comp_def)
qed

lemma length_createdEdges: "length (createdEdges I O') = length I * length O'"
  by (induction I) (simp_all add: createdEdges_def)

text \<open>
  C9, amended. Deleting one node keeps the edges that do not touch it and appends one
  synthesized edge for every pair of an incomer and an outgoer, all of them, without
  handles; when the service node is the only incomer there is one synthesized edge from
  the service node for each outgoer.
\<close>

theorem delete_keeps_every_synthesized_edge:
  "onNodesDelete [node] nodes edges =
     filter (\<lambda>e. source e \<noteq> node_id node \<and> target e \<noteq> node_id node) edges @
     createdEdges (getIncomers node nodes edges) (getOutgoers node nodes edges) \<and>
   length (createdEdges (getIncomers node nodes edges) (getOutgoers node nodes edges)) =
     length (getIncomers node nodes edges) * length (getOutgoers node nodes edges) \<and>
   (getIncomers node nodes edges = [sv] \<and> node_id sv = SERVICE_ID \<longrightarrow>
      createdEdges (getIncomers node nodes edges) (getOutgoers node nodes edges) =
        map (\<lambda>out. \<lparr>edge_id = SERVICE_ID @ ''->'' @ node_id out, source = SERVICE_ID,
                     target = node_id out, sourceHandle = Undefined, targetHandle = Undefined\<rparr>)
          (getOutgoers node nodes edges))"
  by (simp add: onNodesDelete_single length_createdEdges) (simp add: createdEdges_def createdEdge_def)

text \<open>
  In the graph above the service node is the only incomer of \<open>a\<close>, which has two
  outgoers: two synthesized edges without handles leave the service node.
\<close>

theorem delete_keeps_every_synthesized_edge_witness:
  "getIncomers unit_a scenario_nodes rewire_scenario = [scenario_nodes ! 0] \<and>
   node_id (scenario_nodes ! 0) = SERVICE_ID \<and>
   length (getOutgoers unit_a scenario_nodes rewire_scenario) = 2 \<and>
   length (filter (\<lambda>e. source e = SERVICE_ID \<and> sourceHandle e = Undefined)
      (onNodesDelete [unit_a] scenario_nodes rewire_scenario)) = 2"
proof -
  have i: "getIncomers unit_a scenario_nodes rewire_scenario = [scenario_nodes ! 0]"
    by (simp add: rewire_scenario_eq scenario_nodes_eq unit_a_def getIncomers_def)
  have s: "node_id (scenario_nodes ! 0) = SERVICE_ID"
    by (simp add: scenario_nodes_eq SERVICE_ID_def)
  have o: "getOutgoers unit_a scenario_nodes rewire_scenario = [scenario_nodes ! 3, scenario_nodes ! 4]"
    by (simp add: rewire_scenario_eq scenario_nodes_eq unit_a_def getOutgoers_def)
  have f: "filter (\<lambda>e. source e \<noteq> node_id unit_a \<and> target e \<noteq> node_id unit_a) rewire_scenario = []"
    by (simp add: rewire_scenario_eq unit_a_def)
  from delete_keeps_every_synthesized_edge[of unit_a scenario_nodes rewire_scenario "scenario_nodes ! 0"]
  have "onNodesDelete [unit_a] scenario_nodes rewire_scenario =
          map (\<lambda>out. \<lparr>edge_id = SERVICE_ID @ ''->'' @ node_id out, source = SERVICE_ID,
                     target = node_id out, sourceHandle = Undefined, targetHandle = Undefined\<rparr>)
            [scenario_nodes ! 3, scenario_nodes ! 4]"
    using i s o f by simp
  then show ?thesis using i s o by simp
qed

lemma service_scenario_edges:
  "st_edges service_scenario =
     [\<lparr>edge_id = ''reactflow__edge-aout-servicebefore-GET'', source = ''a'', target = ''service'',
       sourceHandle = Str ''out'', targetHandle = Str ''before-GET''\<rparr>,
      \<lparr>edge_id = ''reactflow__edge-serviceafter-GET-cin'', source = ''service'', target = ''c'',
       sourceHandle = Str ''after-GET'', targetHandle = Str ''in''\<rparr>]"
  by (simp add: service_scenario_def connect_eval)

text \<open>
  C6, as stated, fails: deleting the service node is carried out. The node is removed,
  its edges are removed and its incomer is wired to its outgoer.
\<close>

theorem service_node_deleted_counterexample:
  "st_nodes (applyOps [''GET''] service_scenario [DeleteNodes initialNodes]) =
     [\<lparr>node_id = ''a'', node_type = HOOK_NODE_TYPE, data_id = Some ''hookA''\<rparr>,
      \<lparr>node_id = ''b'', node_type = HOOK_NODE_TYPE, data_id = Some ''hookB''\<rparr>,
      \<lparr>node_id = ''c'', node_type = HOOK_NODE_TYPE, data_id = Some ''hookC''\<rparr>,
      \<lparr>node_id = ''d'', node_type = HOOK_NODE_TYPE, data_id = Some ''hookD''\<rparr>] \<and>
   st_edges (applyOps [''GET''] service_scenario [DeleteNodes initialNodes]) =
     [\<lparr>edge_id = ''a->c'', source = ''a'', target = ''c'',
       sourceHandle = Undefined, targetHandle = Undefined\<rparr>] \<and>
   service_count (st_nodes (applyOps [''GET''] service_scenario [DeleteNodes initialNodes])) = 0"
proof -
  have n: "st_nodes service_scenario = scenario_nodes" by (simp add: service_scenario_def)
  show ?thesis
    by (simp add: applyOps_def applyOp_def st_nodes_resolveEffect st_edges_resolveEffect n
        service_scenario_edges service_count_def)
       (simp add: scenario_nodes_eq initialNodes_def SERVICE_ID_def removeNodes_def delete_eval)
qed

lemma one_service_structural:
  assumes "one_service (st_nodes st)" and "keeps_service op"
  shows "one_service (st_nodes (structural op st))"
proof (cases op)
  case (Connect c)
  with assms show ?thesis by simp
next
  case (AddHook h r)
  with assms show ?thesis by (auto simp: one_service_def service_count_def addHook_def)
next
  case (DeleteNodes ds)
  have "filter (\<lambda>n. node_type n = SERVICE_NODE_TYPE) (removeNodes ds (st_nodes st)) =
        filter (\<lambda>n. node_type n = SERVICE_NODE_TYPE) (st_nodes st)"
    unfolding removeNodes_def filter_filter
    by (rule filter_cong) (use assms DeleteNodes in \<open>auto simp: one_service_def\<close>)
  with assms DeleteNodes show ?thesis
    by (auto simp: one_service_def service_count_def removeNodes_def)
qed

lemma one_service_applyOps:
  "one_service (st_nodes st) \<Longrightarrow> \<forall>op\<in>set ops. keeps_service op \<Longrightarrow>
   one_service (st_nodes (applyOps MS st ops))"
proof (induction ops arbitrary: st)
  case Nil
  then show ?case by (simp add: applyOps_def)
next
  case (Cons op ops)
  have "one_service (st_nodes (applyOp MS st op))"
    using one_service_structural[of st op] Cons.prems
    by (simp add: applyOp_def st_nodes_resolveEffect)
  from Cons.IH[OF this] Cons.prems(2) show ?case by (simp add: applyOps_def)
qed

text \<open>
  C6, amended. There is exactly one service node after every sequence of operations
  that deletes no node with the id of the service node. Deleting the service node is
  not refused: it leaves no service node, removes the edges at the service node and
  appends the synthesized edges from its incomers to its outgoers.
\<close>

theorem service_node_kept_unless_deleted:
  "(one_service (st_nodes st) \<and> (\<forall>op\<in>set ops. keeps_service op) \<longrightarrow>
      one_service (st_nodes (applyOps MS st ops))) \<and>
   (one_service (st_nodes st) \<and> node_id sv = SERVICE_ID \<longrightarrow>
      service_count (st_nodes (applyOp MS st (DeleteNodes [sv]))) = 0 \<and>
      st_edges (applyOp MS st (DeleteNodes [sv])) =
        filter (\<lambda>e. source e \<noteq> SERVICE_ID \<and> target e \<noteq> SERVICE_ID) (st_edges st) @
        createdEdges (getIncomers sv (st_nodes st) (st_edges st))
                     (getOutgoers sv (st_nodes st) (st_edges st)))"
proof (intro conjI impI)
  assume "one_service (st_nodes st) \<and> (\<forall>op\<in>set ops. keeps_service op)"
  then show "one_service (st_nodes (applyOps MS st ops))" by (simp add: one_service_applyOps)
next
  assume a: "one_service (st_nodes st) \<and> node_id sv = SERVICE_ID"
  then have "filter (\<lambda>n. node_type n = SERVICE_NODE_TYPE) (removeNodes [sv] (st_nodes st)) = []"
    by (auto simp: removeNodes_def one_service_def filter_empty_conv)
  then show "service_count (st_nodes (applyOp MS st (DeleteNodes [sv]))) = 0"
    by (simp add: applyOp_def st_nodes_resolveEffect service_count_def)
next
  assume a: "one_service (st_nodes st) \<and> node_id sv = SERVICE_ID"
  then show "st_edges (applyOp MS st (DeleteNodes [sv])) =
        filter (\<lambda>e. source e \<noteq> SERVICE_ID \<and> target e \<noteq> SERVICE_ID) (st_edges st) @
        createdEdges (getIncomers sv (st_nodes st) (st_edges st))
                     (getOutgoers sv (st_nodes st) (st_edges st))"
    by (simp add: applyOp_def st_edges_resolveEffect onNodesDelete_single)
qed

text \<open>
  A connect, an added hook and the deletion of \<open>a\<close> keep the one service node;
  deleting the service node leaves none.
\<close>

theorem service_node_kept_unless_deleted_witness:
  "one_service (st_nodes service_scenario) \<and>
   keeps_service (Connect (connectionOf ''b'' ''out'' ''a'' ''in'')) \<and>
   keeps_service (AddHook ''hookE'' ''e'') \<and> keeps_service (DeleteNodes [unit_a]) \<and>
   one_service (st_nodes (applyOps [''GET''] service_scenario
     [Connect (connectionOf ''b'' ''out'' ''a'' ''in''), AddHook ''hookE'' ''e'', DeleteNodes [unit_a]])) \<and>
   node_id (scenario_nodes ! 0) = SERVICE_ID \<and>
   service_count (st_nodes (applyOp [''GET''] service_scenario (DeleteNodes [scenario_nodes ! 0]))) = 0"
proof -
  let ?ops = "[Connect (connectionOf ''b'' ''out'' ''a'' ''in''), AddHook ''hookE'' ''e'', DeleteNodes [unit_a]]"
  have o: "one_service (st_nodes service_scenario)"
    by (simp add: service_scenario_def scenario_nodes_eq one_service_def service_count_def SERVICE_ID_def)
  have k: "\<forall>op\<in>set ?ops. keeps_service op" by (simp add: unit_a_def SERVICE_ID_def)
  have s: "node_id (scenario_nodes ! 0) = SERVICE_ID" by (simp add: scenario_nodes_eq SERVICE_ID_def)
  from service_node_kept_unless_deleted[where st = service_scenario and ops = ?ops
      and sv = "scenario_nodes ! 0" and MS = "[''GET'']"] o k s
  show ?thesis by simp
qed

section \<open>Deleting a unit between two units\<close>

lemma bypass_ids:
  assumes "bypass src tgt E a p q ne"
  shows "a \<noteq> SERVICE_ID" "p \<noteq> SERVICE_ID" "q \<noteq> SERVICE_ID" "a \<noteq> p" "a \<noteq> q" "p \<noteq> q"
    "src ne = p" "tgt ne = q" "edge_id ne \<notin> edge_id ` set E" "edge_id ne \<notin> set objectPrototypeKeys"
  using assms unfolding bypass_def by blast+

lemma bypass_in:
  assumes "bypass src tgt E a p q ne"
  shows "e \<in> set E \<Longrightarrow> tgt e = a \<Longrightarrow> src e = p"
  using assms unfolding bypass_def by blast

lemma bypass_out:
  assumes "bypass src tgt E a p q ne"
  shows "e \<in> set E \<Longrightarrow> src e = a \<Longrightarrow> tgt e = q"
  using assms unfolding bypass_def by blast

lemma bypass_only:
  assumes "bypass src tgt E a p q ne"
  shows "e \<in> set E \<Longrightarrow> tgt e = q \<Longrightarrow> src e \<noteq> SERVICE_ID \<Longrightarrow> src e = a"
  using assms unfolding bypass_def by blast

lemma bypass_ex:
  assumes "bypass src tgt E a p q ne"
  shows "\<exists>e\<in>set E. tgt e = a" "\<exists>e\<in>set E. src e = a"
  using assms unfolding bypass_def by blast+

lemma find_filter_same:
  "(\<And>x. x \<in> set xs \<Longrightarrow> P x \<Longrightarrow> F x) \<Longrightarrow> List.find P (filter F xs) = List.find P xs"
  by (induction xs) auto

lemma find_append_miss: "\<not> P y \<Longrightarrow> List.find P (xs @ [y]) = List.find P xs"
  by (induction xs) auto

lemma find_append_only:
  "(\<And>x. x \<in> set xs \<Longrightarrow> \<not> P x) \<Longrightarrow> P y \<Longrightarrow> List.find P (xs @ [y]) = Some y"
  by (induction xs) auto

lemma step_ex:
  "x \<in> set E \<Longrightarrow> src x \<noteq> SERVICE_ID \<Longrightarrow> tgt x = src c \<Longrightarrow> \<exists>d. step src tgt E c = Some d"
  unfolding step_def by (cases "List.find (\<lambda>e. src e \<noteq> SERVICE_ID \<and> tgt e = src c) E")
    (auto simp: find_None_iff)

lemma step_elsewhere:
  assumes bp: "bypass src tgt E a p q ne"
    and F: "\<And>e. (source e \<noteq> a \<and> target e \<noteq> a) = (src e \<noteq> a \<and> tgt e \<noteq> a)"
    and k: "src c \<noteq> a" "src c \<noteq> q"
  shows "step src tgt (without a E @ [ne]) c = step src tgt E c"
proof -
  let ?P = "\<lambda>e. src e \<noteq> SERVICE_ID \<and> tgt e = src c"
  have "\<not> ?P ne" using bypass_ids(8)[OF bp] k(2) by simp
  then have "step src tgt (without a E @ [ne]) c = List.find ?P (without a E)"
    unfolding step_def by (rule find_append_miss)
  also have "\<dots> = List.find ?P E"
    unfolding without_def
  proof (rule find_filter_same)
    fix x assume x: "x \<in> set E" and P: "?P x"
    have "src x \<noteq> a" using bypass_out[OF bp x] P k(2) by metis
    moreover have "tgt x \<noteq> a" using P k(1) by simp
    ultimately show "source x \<noteq> a \<and> target x \<noteq> a" by (simp only: F simp_thms)
  qed
  finally show ?thesis by (simp only: step_def)
qed

lemma step_onto_bypass:
  assumes bp: "bypass src tgt E a p q ne"
    and F: "\<And>e. (source e \<noteq> a \<and> target e \<noteq> a) = (src e \<noteq> a \<and> tgt e \<noteq> a)"
    and k: "src c = q"
  shows "step src tgt (without a E @ [ne]) c = Some ne"
  unfolding step_def
proof (rule find_append_only)
  fix x assume "x \<in> set (without a E)"
  then have x: "x \<in> set E" and xa: "src x \<noteq> a \<and> tgt x \<noteq> a"
    unfolding without_def by (simp_all add: F)
  show "\<not> (src x \<noteq> SERVICE_ID \<and> tgt x = src c)"
    using bypass_only[OF bp x] xa k by metis
next
  show "src ne \<noteq> SERVICE_ID \<and> tgt ne = src c"
    using bypass_ids(2,7,8)[OF bp] k by simp
qed

lemma step_into_deleted:
  assumes bp: "bypass src tgt E a p q ne" and k: "src c = q"
  shows "\<exists>d. step src tgt E c = Some d \<and> d \<in> set E \<and> src d = a"
proof -
  from bypass_ex(2)[OF bp] obtain e where e: "e \<in> set E" "src e = a" by blast
  have "tgt e = src c" using bypass_out[OF bp e] k by simp
  moreover have "src e \<noteq> SERVICE_ID" using e(2) bypass_ids(1)[OF bp] by simp
  ultimately obtain d where d: "step src tgt E c = Some d" using step_ex[OF e(1)] by blast
  from step_Some[OF d] k have "d \<in> set E" "tgt d = q" "src d \<noteq> SERVICE_ID" by simp_all
  with bypass_only[OF bp this] d show ?thesis by blast
qed

lemma step_out_of_deleted:
  assumes bp: "bypass src tgt E a p q ne" and k: "src d = a"
  shows "\<exists>d2. step src tgt E d = Some d2 \<and> d2 \<in> set E \<and> tgt d2 = a \<and> src d2 = p"
proof -
  from bypass_ex(1)[OF bp] obtain e where e: "e \<in> set E" "tgt e = a" by blast
  have "src e \<noteq> SERVICE_ID" using bypass_in[OF bp e] bypass_ids(2)[OF bp] by simp
  moreover have "tgt e = src d" using e(2) k by simp
  ultimately obtain d2 where d: "step src tgt E d = Some d2" using step_ex[OF e(1)] by blast
  from step_Some[OF d] k have d2: "d2 \<in> set E" "tgt d2 = a" by simp_all
  with bypass_in[OF bp d2] d show ?thesis by blast
qed

lemma step_keeps_clear:
  assumes bp: "bypass src tgt E a p q ne" and k: "src c \<noteq> a" "src c \<noteq> q"
    and d: "step src tgt E c = Some d"
  shows "d \<in> set E \<and> src d \<noteq> a \<and> tgt d \<noteq> a"
proof -
  from step_Some[OF d] have dE: "d \<in> set E" and t: "tgt d = src c" by simp_all
  have "src d \<noteq> a" using bypass_out[OF bp dE] t k(2) by metis
  with dE t k(1) show ?thesis by simp
qed

lemma src_reroute:
  assumes bp: "bypass src tgt E a p q ne" and e: "e \<in> set E"
  shows "src (reroute tgt a ne e) = src e"
proof (cases "tgt e = a")
  case True
  with bypass_in[OF bp e] bypass_ids(7)[OF bp] show ?thesis by (simp add: reroute_def)
next
  case False
  then show ?thesis by (simp add: reroute_def)
qed

lemma chain_rewired:
  assumes bp: "bypass src tgt E a p q ne"
    and F: "\<And>e. (source e \<noteq> a \<and> target e \<noteq> a) = (src e \<noteq> a \<and> tgt e \<noteq> a)"
  shows "chain (step src tgt E) cur ws \<Longrightarrow>
         (\<forall>c. cur = Some c \<longrightarrow> c \<in> set E \<and> src c \<noteq> a) \<Longrightarrow>
         chain (step src tgt (without a E @ [ne])) (map_option (reroute tgt a ne) cur)
           (rewired src tgt a ne ws)"
proof (induction ws arbitrary: cur rule: length_induct)
  case (1 ws)
  let ?nx = "step src tgt E" and ?nx' = "step src tgt (without a E @ [ne])"
  let ?r = "reroute tgt a ne"
  show ?case
  proof (cases cur)
    case None
    with "1.prems" show ?thesis by (simp add: rewired_def)
  next
    case (Some c)
    with "1.prems" obtain ws1 where ws: "ws = c # ws1" and ch1: "chain ?nx (?nx c) ws1"
      by (cases ws) auto
    from Some "1.prems" have cE: "c \<in> set E" and ca: "src c \<noteq> a" by auto
    have rs: "src (?r c) = src c" by (rule src_reroute[OF bp cE])
    have hd: "rewired src tgt a ne ws = ?r c # rewired src tgt a ne ws1"
      using ws ca by (simp add: rewired_def)
    show ?thesis
    proof (cases "src c = q")
      case False
      have st: "?nx' (?r c) = ?nx c"
        using step_elsewhere[OF bp F, of "?r c"] step_src_cong[of src "?r c" c tgt E] rs ca False
        by simp
      have clear: "\<forall>d. ?nx c = Some d \<longrightarrow> d \<in> set E \<and> src d \<noteq> a"
        using step_keeps_clear[OF bp ca False] by blast
      have same: "map_option ?r (?nx c) = ?nx c"
        using step_keeps_clear[OF bp ca False] by (cases "?nx c") (auto simp: reroute_def)
      have "length ws1 < length ws" using ws by simp
      from "1.IH"[rule_format, OF this ch1] clear
      have "chain ?nx' (map_option ?r (?nx c)) (rewired src tgt a ne ws1)" by blast
      with st same Some hd show ?thesis by simp
    next
      case True
      from step_into_deleted[OF bp True] obtain d where d: "?nx c = Some d" "d \<in> set E" "src d = a"
        by blast
      with ch1 obtain ws2 where ws1: "ws1 = d # ws2" and ch2: "chain ?nx (?nx d) ws2"
        by (cases ws1) auto
      from step_out_of_deleted[OF bp d(3)] obtain d2 where
        d2: "?nx d = Some d2" "d2 \<in> set E" "tgt d2 = a" "src d2 = p" by blast
      have pa: "p \<noteq> a" using bypass_ids(4)[OF bp] by simp
      have ch2': "chain ?nx (Some d2) ws2" using ch2 d2(1) by simp
      have "length ws2 < length ws" using ws ws1 by simp
      from "1.IH"[rule_format, OF this ch2'] d2 pa
      have "chain ?nx' (map_option ?r (Some d2)) (rewired src tgt a ne ws2)" by simp
      then have c2: "chain ?nx' (Some ne) (rewired src tgt a ne ws2)"
        using d2 by (simp add: reroute_def)
      have drop: "rewired src tgt a ne ws1 = rewired src tgt a ne ws2"
        using ws1 d by (simp add: rewired_def)
      have "?nx' (?r c) = Some ne"
        using step_onto_bypass[OF bp F, of "?r c"] rs True by simp
      with c2 drop Some hd show ?thesis by simp
    qed
  qed
qed

lemma chain_in:
  "chain (step src tgt E) cur ws \<Longrightarrow> (\<forall>c. cur = Some c \<longrightarrow> c \<in> set E) \<Longrightarrow> set ws \<subseteq> set E"
proof (induction ws arbitrary: cur)
  case Nil
  then show ?case by simp
next
  case (Cons w ws)
  then obtain c where c: "cur = Some c" by (cases cur) auto
  with Cons.prems have wc: "w = c" and ch: "chain (step src tgt E) (step src tgt E c) ws" by auto
  have "\<forall>d. step src tgt E c = Some d \<longrightarrow> d \<in> set E" using step_Some by blast
  from Cons.IH[OF ch this] Cons.prems(2) c wc show ?case by simp
qed

lemma set_rewired:
  "set (rewired src tgt a ne ws) \<subseteq>
     {e \<in> set ws. src e \<noteq> a \<and> tgt e \<noteq> a} \<union> {x. x = ne \<and> (\<exists>e\<in>set ws. src e \<noteq> a \<and> tgt e = a)}"
  by (auto simp: rewired_def reroute_def)

lemma rewired_Cons:
  "rewired src tgt a ne (e # ws) =
     (if src e = a then rewired src tgt a ne ws
      else reroute tgt a ne e # rewired src tgt a ne ws)"
  by (simp add: rewired_def)

lemma rewired_distinct_ids:
  assumes bp: "bypass src tgt E a p q ne"
  shows "set ws \<subseteq> set E \<Longrightarrow> distinct (map edge_id ws) \<Longrightarrow> distinct (map src ws) \<Longrightarrow>
         distinct (map edge_id (rewired src tgt a ne ws))"
proof (induction ws)
  case Nil
  then show ?case by (simp add: rewired_def)
next
  case (Cons e ws)
  from Cons.prems have eE: "e \<in> set E" and sub: "set ws \<subseteq> set E"
    and ide: "edge_id e \<notin> edge_id ` set ws" and srce: "src e \<notin> src ` set ws" by auto
  from Cons.IH[OF sub] Cons.prems have ih: "distinct (map edge_id (rewired src tgt a ne ws))" by simp
  have fresh: "\<And>x. x \<in> set E \<Longrightarrow> edge_id x \<noteq> edge_id ne"
    using bypass_ids(9)[OF bp] by (metis imageI)
  show ?case
  proof (cases "src e = a")
    case True
    with ih show ?thesis by (simp add: rewired_Cons)
  next
    case sa: False
    show ?thesis
    proof (cases "tgt e = a")
      case True
      have "edge_id ne \<notin> edge_id ` set (rewired src tgt a ne ws)"
      proof
        assume "edge_id ne \<in> edge_id ` set (rewired src tgt a ne ws)"
        then obtain x where x: "x \<in> set (rewired src tgt a ne ws)" "edge_id x = edge_id ne" by auto
        from set_rewired[of src tgt a ne ws] x(1)
        have "(x \<in> set ws) \<or> (\<exists>e'\<in>set ws. tgt e' = a)" by auto
        then show False
        proof
          assume "x \<in> set ws"
          with sub fresh x(2) show False by auto
        next
          assume "\<exists>e'\<in>set ws. tgt e' = a"
          then obtain e' where e': "e' \<in> set ws" "tgt e' = a" by blast
          with sub have "e' \<in> set E" by auto
          from bypass_in[OF bp this e'(2)] bypass_in[OF bp eE True] have "src e' = src e" by simp
          with srce e'(1) show False by (metis imageI)
        qed
      qed
      with ih sa True show ?thesis by (simp add: rewired_Cons reroute_def)
    next
      case False
      have "edge_id e \<notin> edge_id ` set (rewired src tgt a ne ws)"
      proof
        assume "edge_id e \<in> edge_id ` set (rewired src tgt a ne ws)"
        then obtain x where x: "x \<in> set (rewired src tgt a ne ws)" "edge_id x = edge_id e" by auto
        from set_rewired[of src tgt a ne ws] x(1) have "x \<in> set ws \<or> x = ne" by auto
        then show False
        proof
          assume "x \<in> set ws"
          with ide x(2) show False by (metis imageI)
        next
          assume "x = ne"
          with fresh[OF eE] x(2) show False by simp
        qed
      qed
      with ih sa False show ?thesis by (simp add: rewired_Cons reroute_def)
    qed
  qed
qed

lemma src_rewired:
  assumes bp: "bypass src tgt E a p q ne"
  shows "set ws \<subseteq> set E \<Longrightarrow> map src (rewired src tgt a ne ws) = filter (\<lambda>k. k \<noteq> a) (map src ws)"
proof (induction ws)
  case Nil
  then show ?case by (simp add: rewired_def)
next
  case (Cons e ws)
  then have "e \<in> set E" by simp
  from src_reroute[OF bp this] Cons show ?case by (simp add: rewired_Cons)
qed

lemma rewired_not_proto:
  assumes bp: "bypass src tgt E a p q ne"
    and "\<forall>e\<in>set ws. edge_id e \<notin> set objectPrototypeKeys"
  shows "\<forall>e\<in>set (rewired src tgt a ne ws). edge_id e \<notin> set objectPrototypeKeys"
proof
  fix x assume "x \<in> set (rewired src tgt a ne ws)"
  with set_rewired[of src tgt a ne ws] have "x \<in> set ws \<or> x = ne" by auto
  with assms(2) bypass_ids(10)[OF bp] show "edge_id x \<notin> set objectPrototypeKeys" by auto
qed

lemma findNode_removeNodes:
  "k \<noteq> node_id A \<Longrightarrow> findNode (removeNodes [A] N) k = findNode N k"
  unfolding findNode_def removeNodes_def by (rule find_filter_same) simp

lemma walk_rewired:
  assumes bp: "bypass src tgt E (node_id A) p q ne"
    and F: "\<And>e. (source e \<noteq> node_id A \<and> target e \<noteq> node_id A) = (src e \<noteq> node_id A \<and> tgt e \<noteq> node_id A)"
    and cur: "\<forall>c. cur = Some c \<longrightarrow> c \<in> set E \<and> src c \<noteq> node_id A \<and> tgt c \<noteq> node_id A"
    and w: "walk src tgt E N {} cur = (ys, None)"
  shows "\<exists>ys'. walk src tgt (without (node_id A) E @ [ne]) (removeNodes [A] N) {} cur = (ys', None) \<and>
           map (\<lambda>y. hookOf (fst y)) ys' =
             map (\<lambda>k. hookOf (findNode N k)) (filter (\<lambda>k. k \<noteq> node_id A) (map (\<lambda>y. src (snd y)) ys))"
proof -
  let ?a = "node_id A"
  let ?ws = "map snd ys"
  let ?ws' = "rewired src tgt ?a ne ?ws"
  from walk_success_conv[OF w] have ch: "chain (step src tgt E) cur ?ws"
    and d: "distinct (map edge_id ?ws)"
    and nv: "\<forall>y\<in>set ys. \<not> visited_has {} (edge_id (snd y))"
    by (simp_all add: comp_def)
  have curE: "\<forall>c. cur = Some c \<longrightarrow> c \<in> set E" using cur by blast
  have sub: "set ?ws \<subseteq> set E" by (rule chain_in[OF ch curE])
  have ds: "distinct (map src ?ws)" by (rule chain_distinct_src[OF ch])
  have cur': "map_option (reroute tgt ?a ne) cur = cur"
    using cur by (cases cur) (auto simp: reroute_def)
  have cur2: "\<forall>c. cur = Some c \<longrightarrow> c \<in> set E \<and> src c \<noteq> ?a" using cur by blast
  from chain_rewired[OF bp F ch cur2] cur'
  have ch': "chain (step src tgt (without ?a E @ [ne])) cur ?ws'" by simp
  have d': "distinct (map edge_id ?ws')" by (rule rewired_distinct_ids[OF bp sub d ds])
  have "\<forall>e\<in>set ?ws. edge_id e \<notin> set objectPrototypeKeys"
    using nv by (auto simp: visited_has_def)
  from rewired_not_proto[OF bp this]
  have nv': "\<forall>e\<in>set ?ws'. \<not> visited_has {} (edge_id e)" by (simp add: visited_has_def)
  let ?ys' = "map (\<lambda>e. (findNode (removeNodes [A] N) (src e), e)) ?ws'"
  from walk_success[OF ch' d' nv']
  have w': "walk src tgt (without ?a E @ [ne]) (removeNodes [A] N) {} cur = (?ys', None)" .
  have "map (\<lambda>y. hookOf (fst y)) ?ys' = map (\<lambda>k. hookOf (findNode (removeNodes [A] N) k)) (map src ?ws')"
    by (simp add: comp_def)
  also have "\<dots> = map (\<lambda>k. hookOf (findNode (removeNodes [A] N) k)) (filter (\<lambda>k. k \<noteq> ?a) (map src ?ws))"
    by (simp only: src_rewired[OF bp sub])
  also have "\<dots> = map (\<lambda>k. hookOf (findNode N k)) (filter (\<lambda>k. k \<noteq> ?a) (map src ?ws))"
    by (rule map_cong) (simp_all add: findNode_removeNodes)
  finally show ?thesis using w' by (simp add: comp_def)
qed

lemma start_rewired:
  assumes bp: "bypass src tgt E a p q ne"
    and F: "\<And>e. (source e \<noteq> a \<and> target e \<noteq> a) = (src e \<noteq> a \<and> tgt e \<noteq> a)"
    and port: "\<forall>e\<in>set E. hnd e = Str h \<longrightarrow> tgt e = SERVICE_ID"
    and new: "hnd ne \<noteq> Str h"
  shows "List.find (\<lambda>e. hnd e = Str h) (without a E @ [ne]) = List.find (\<lambda>e. hnd e = Str h) E \<and>
         (\<forall>c. List.find (\<lambda>e. hnd e = Str h) E = Some c \<longrightarrow> c \<in> set E \<and> src c \<noteq> a \<and> tgt c \<noteq> a)"
proof -
  have clear: "src x \<noteq> a \<and> tgt x \<noteq> a" if x: "x \<in> set E" and hx: "hnd x = Str h" for x
  proof -
    from port x hx have t: "tgt x = SERVICE_ID" by blast
    have "src x \<noteq> a" using bypass_out[OF bp x] t bypass_ids(3)[OF bp] by metis
    with t bypass_ids(1)[OF bp] show ?thesis by simp
  qed
  have "List.find (\<lambda>e. hnd e = Str h) (without a E @ [ne]) = List.find (\<lambda>e. hnd e = Str h) (without a E)"
    using new by (rule find_append_miss)
  also have "\<dots> = List.find (\<lambda>e. hnd e = Str h) E"
    unfolding without_def by (rule find_filter_same) (simp add: F clear)
  finally have 1: "List.find (\<lambda>e. hnd e = Str h) (without a E @ [ne]) = List.find (\<lambda>e. hnd e = Str h) E" .
  have 2: "\<forall>c. List.find (\<lambda>e. hnd e = Str h) E = Some c \<longrightarrow> c \<in> set E \<and> src c \<noteq> a \<and> tgt c \<noteq> a"
  proof (intro allI impI)
    fix c assume "List.find (\<lambda>e. hnd e = Str h) E = Some c"
    then have "c \<in> set E" "hnd c = Str h" by (auto simp: find_Some_iff)
    with clear show "c \<in> set E \<and> src c \<noteq> a \<and> tgt c \<noteq> a" by blast
  qed
  from 1 2 show ?thesis by blast
qed

lemma incomers_source:
  assumes "getIncomers A N E = [B]" "e \<in> set E" "target e = node_id A" "source e \<in> set (map node_id N)"
  shows "source e = node_id B"
proof -
  from assms(4) obtain n where n: "n \<in> set N" "node_id n = source e" by auto
  with assms(2,3) have "n \<in> set (getIncomers A N E)" by (auto simp: getIncomers_def)
  with assms(1) n show ?thesis by simp
qed

lemma outgoers_target:
  assumes "getOutgoers A N E = [C]" "e \<in> set E" "source e = node_id A" "target e \<in> set (map node_id N)"
  shows "target e = node_id C"
proof -
  from assms(4) obtain n where n: "n \<in> set N" "node_id n = target e" by auto
  with assms(2,3) have "n \<in> set (getOutgoers A N E)" by (auto simp: getOutgoers_def)
  with assms(1) n show ?thesis by simp
qed

lemma incomers_ex: "getIncomers A N E = [B] \<Longrightarrow> \<exists>e\<in>set E. target e = node_id A"
proof -
  assume "getIncomers A N E = [B]"
  then have "B \<in> set (getIncomers A N E)" by simp
  then show ?thesis by (auto simp: getIncomers_def)
qed

lemma outgoers_ex: "getOutgoers A N E = [C] \<Longrightarrow> \<exists>e\<in>set E. source e = node_id A"
proof -
  assume "getOutgoers A N E = [C]"
  then have "C \<in> set (getOutgoers A N E)" by simp
  then show ?thesis by (auto simp: getOutgoers_def)
qed

lemma created_id_not_proto: "s @ ''->'' @ t \<notin> set objectPrototypeKeys"
proof
  assume "s @ ''->'' @ t \<in> set objectPrototypeKeys"
  moreover have "\<forall>k\<in>set objectPrototypeKeys. CHR ''-'' \<notin> set k"
    by (simp add: objectPrototypeKeys_def)
  ultimately have "CHR ''-'' \<notin> set (s @ ''->'' @ t)" by blast
  then show False by simp
qed

lemma deletable_unit_facts:
  assumes "deletable_unit A B C N E"
  shows "getIncomers A N E = [B]" "getOutgoers A N E = [C]"
    "node_id A \<noteq> SERVICE_ID" "node_id B \<noteq> SERVICE_ID" "node_id C \<noteq> SERVICE_ID"
    "node_id A \<noteq> node_id B" "node_id A \<noteq> node_id C" "node_id B \<noteq> node_id C"
    "\<And>e. e \<in> set E \<Longrightarrow> source e \<in> set (map node_id N)"
    "\<And>e. e \<in> set E \<Longrightarrow> target e \<in> set (map node_id N)"
    "\<And>e. e \<in> set E \<Longrightarrow> target e = node_id C \<Longrightarrow> source e \<noteq> SERVICE_ID \<Longrightarrow> source e = node_id A"
    "\<And>e. e \<in> set E \<Longrightarrow> source e = node_id B \<Longrightarrow> target e \<noteq> SERVICE_ID \<Longrightarrow> target e = node_id A"
    "edge_id (createdEdge (node_id B) (node_id C)) \<notin> edge_id ` set E"
  using assms unfolding deletable_unit_def createdEdge_def by (simp_all; blast)+

lemma bypass_back:
  assumes du: "deletable_unit A B C N E"
  shows "bypass source target E (node_id A) (node_id B) (node_id C) (createdEdge (node_id B) (node_id C))"
proof -
  note f = deletable_unit_facts[OF du]
  have 1: "\<forall>e\<in>set E. target e = node_id A \<longrightarrow> source e = node_id B"
    using incomers_source[OF f(1)] f(9) by blast
  have 2: "\<forall>e\<in>set E. source e = node_id A \<longrightarrow> target e = node_id C"
    using outgoers_target[OF f(2)] f(10) by blast
  have 3: "\<forall>e\<in>set E. target e = node_id C \<and> source e \<noteq> SERVICE_ID \<longrightarrow> source e = node_id A"
    using f(11) by blast
  have 4: "source (createdEdge (node_id B) (node_id C)) = node_id B"
    "target (createdEdge (node_id B) (node_id C)) = node_id C"
    "edge_id (createdEdge (node_id B) (node_id C)) \<notin> set objectPrototypeKeys"
    using created_id_not_proto[of "node_id B" "node_id C"] by (simp_all add: createdEdge_def)
  show ?thesis
    unfolding bypass_def
    using f(3-8) 1 2 3 4 incomers_ex[OF f(1)] outgoers_ex[OF f(2)] f(13) by blast
qed

lemma bypass_forward:
  assumes du: "deletable_unit A B C N E"
  shows "bypass target source E (node_id A) (node_id C) (node_id B) (createdEdge (node_id B) (node_id C))"
proof -
  note f = deletable_unit_facts[OF du]
  have 1: "\<forall>e\<in>set E. target e = node_id A \<longrightarrow> source e = node_id B"
    using incomers_source[OF f(1)] f(9) by blast
  have 2: "\<forall>e\<in>set E. source e = node_id A \<longrightarrow> target e = node_id C"
    using outgoers_target[OF f(2)] f(10) by blast
  have 3: "\<forall>e\<in>set E. source e = node_id B \<and> target e \<noteq> SERVICE_ID \<longrightarrow> target e = node_id A"
    using f(12) by blast
  have 4: "source (createdEdge (node_id B) (node_id C)) = node_id B"
    "target (createdEdge (node_id B) (node_id C)) = node_id C"
    "edge_id (createdEdge (node_id B) (node_id C)) \<notin> set objectPrototypeKeys"
    using created_id_not_proto[of "node_id B" "node_id C"] by (simp_all add: createdEdge_def)
  have 5: "node_id C \<noteq> node_id B" using f(8) by simp
  show ?thesis
    unfolding bypass_def
    using f(3-7) 5 1 2 3 4 incomers_ex[OF f(1)] outgoers_ex[OF f(2)] f(13) by blast
qed

lemma walk_hooks:
  assumes w: "walk src tgt E N v cur = (ys, None)"
  shows "map (\<lambda>y. hookOf (fst y)) ys = map (\<lambda>k. hookOf (findNode N k)) (map (\<lambda>y. src (snd y)) ys)"
    and "distinct (map (\<lambda>y. src (snd y)) ys)"
proof -
  from walk_success_conv[OF w] have ch: "chain (step src tgt E) cur (map snd ys)"
    and ys: "ys = map (\<lambda>e. (findNode N (src e), e)) (map snd ys)" by simp_all
  have "map (\<lambda>y. hookOf (fst y)) (map (\<lambda>e. (findNode N (src e), e)) (map snd ys)) =
        map (\<lambda>k. hookOf (findNode N k)) (map (\<lambda>y. src (snd y)) ys)"
    by (simp add: comp_def)
  with ys show "map (\<lambda>y. hookOf (fst y)) ys = map (\<lambda>k. hookOf (findNode N k)) (map (\<lambda>y. src (snd y)) ys)"
    by simp
  from chain_distinct_src[OF ch] show "distinct (map (\<lambda>y. src (snd y)) ys)" by (simp add: comp_def)
qed

lemma walk_deleted:
  assumes bp: "bypass src tgt E (node_id A) p q ne"
    and F: "\<And>e. (source e \<noteq> node_id A \<and> target e \<noteq> node_id A) = (src e \<noteq> node_id A \<and> tgt e \<noteq> node_id A)"
    and port: "\<forall>e\<in>set E. hnd e = Str h \<longrightarrow> tgt e = SERVICE_ID"
    and new: "hnd ne \<noteq> Str h"
    and w: "walk src tgt E N {} (List.find (\<lambda>e. hnd e = Str h) E) = (ys, None)"
  shows "\<exists>ys'. walk src tgt (without (node_id A) E @ [ne]) (removeNodes [A] N) {}
                 (List.find (\<lambda>e. hnd e = Str h) (without (node_id A) E @ [ne])) = (ys', None) \<and>
           map (\<lambda>y. hookOf (fst y)) ys' =
             map (\<lambda>k. hookOf (findNode N k))
               (filter (\<lambda>k. k \<noteq> node_id A) (map (\<lambda>y. src (snd y)) ys))"
proof -
  from start_rewired[OF bp F port new]
  have s1: "List.find (\<lambda>e. hnd e = Str h) (without (node_id A) E @ [ne]) = List.find (\<lambda>e. hnd e = Str h) E"
    and s2: "\<forall>c. List.find (\<lambda>e. hnd e = Str h) E = Some c \<longrightarrow>
               c \<in> set E \<and> src c \<noteq> node_id A \<and> tgt c \<noteq> node_id A" by blast+
  from walk_rewired[OF bp F s2 w] show ?thesis by (simp only: s1)
qed

lemma beforeHooks_deleted:
  assumes du: "deletable_unit A B C N E" and sp: "service_ports E m"
    and b: "beforeHooks E N m = Inr ch"
  shows "ch = rev (hooksOf N (beforeNodes E N m))"
    and "distinct (beforeNodes E N m)"
    and "beforeHooks (without (node_id A) E @ [createdEdge (node_id B) (node_id C)])
           (removeNodes [A] N) m =
         Inr (rev (hooksOf N (filter (\<lambda>k. k \<noteq> node_id A) (beforeNodes E N m))))"
proof -
  obtain ys r where a: "ancestry E N (beforeHandle m) = (ys, r)" by (cases "ancestry E N (beforeHandle m)")
  with b have r: "r = None" and ch: "ch = rev (map (\<lambda>y. hookOf (fst y)) ys)"
    by (auto simp: beforeHooks_def case_prod_unfold split: option.splits)
  from a r have w: "walk source target E N {} (List.find (\<lambda>e. targetHandle e = Str (beforeHandle m)) E) = (ys, None)"
    by (simp add: ancestry_def ancestry_loop_walk)
  have ns: "beforeNodes E N m = map (\<lambda>y. source (snd y)) ys"
    by (simp add: beforeNodes_def a case_prod_unfold)
  note h = walk_hooks[OF w]
  from ch h(1) show "ch = rev (hooksOf N (beforeNodes E N m))" by (simp only: ns hooksOf_def)
  from h(2) show "distinct (beforeNodes E N m)" by (simp only: ns)
  have port: "\<forall>e\<in>set E. targetHandle e = Str (beforeHandle m) \<longrightarrow> target e = SERVICE_ID"
    using sp by (simp add: service_ports_def)
  have new: "targetHandle (createdEdge (node_id B) (node_id C)) \<noteq> Str (beforeHandle m)"
    by (simp add: createdEdge_def)
  from walk_deleted[OF bypass_back[OF du] _ port new w] obtain ys' where
    w': "walk source target (without (node_id A) E @ [createdEdge (node_id B) (node_id C)]) (removeNodes [A] N) {}
           (List.find (\<lambda>e. targetHandle e = Str (beforeHandle m))
              (without (node_id A) E @ [createdEdge (node_id B) (node_id C)])) = (ys', None)"
    and hs: "map (\<lambda>y. hookOf (fst y)) ys' =
             map (\<lambda>k. hookOf (findNode N k))
               (filter (\<lambda>k. k \<noteq> node_id A) (map (\<lambda>y. source (snd y)) ys))"
    by blast
  from w' have "beforeHooks (without (node_id A) E @ [createdEdge (node_id B) (node_id C)])
                  (removeNodes [A] N) m = Inr (rev (map (\<lambda>y. hookOf (fst y)) ys'))"
    by (simp add: beforeHooks_def ancestry_def ancestry_loop_walk case_prod_unfold)
  then show "beforeHooks (without (node_id A) E @ [createdEdge (node_id B) (node_id C)])
           (removeNodes [A] N) m =
         Inr (rev (hooksOf N (filter (\<lambda>k. k \<noteq> node_id A) (beforeNodes E N m))))"
    by (simp only: hs ns hooksOf_def)
qed

lemma afterHooks_deleted:
  assumes du: "deletable_unit A B C N E" and sp: "service_ports E m"
    and b: "afterHooks E N m = Inr ch"
  shows "ch = hooksOf N (afterNodes E N m)"
    and "distinct (afterNodes E N m)"
    and "afterHooks (without (node_id A) E @ [createdEdge (node_id B) (node_id C)])
           (removeNodes [A] N) m =
         Inr (hooksOf N (filter (\<lambda>k. k \<noteq> node_id A) (afterNodes E N m)))"
proof -
  obtain ys r where a: "descent E N (afterHandle m) = (ys, r)" by (cases "descent E N (afterHandle m)")
  with b have r: "r = None" and ch: "ch = map (\<lambda>y. hookOf (fst y)) ys"
    by (auto simp: afterHooks_def case_prod_unfold split: option.splits)
  from a r have w: "walk target source E N {} (List.find (\<lambda>e. sourceHandle e = Str (afterHandle m)) E) = (ys, None)"
    by (simp add: descent_def descent_loop_walk)
  have ns: "afterNodes E N m = map (\<lambda>y. target (snd y)) ys"
    by (simp add: afterNodes_def a case_prod_unfold)
  note h = walk_hooks[OF w]
  from ch h(1) show "ch = hooksOf N (afterNodes E N m)" by (simp only: ns hooksOf_def)
  from h(2) show "distinct (afterNodes E N m)" by (simp only: ns)
  have port: "\<forall>e\<in>set E. sourceHandle e = Str (afterHandle m) \<longrightarrow> source e = SERVICE_ID"
    using sp by (simp add: service_ports_def)
  have new: "sourceHandle (createdEdge (node_id B) (node_id C)) \<noteq> Str (afterHandle m)"
    by (simp add: createdEdge_def)
  have F: "\<And>e. (source e \<noteq> node_id A \<and> target e \<noteq> node_id A) = (target e \<noteq> node_id A \<and> source e \<noteq> node_id A)"
    by blast
  from walk_deleted[OF bypass_forward[OF du] F port new w] obtain ys' where
    w': "walk target source (without (node_id A) E @ [createdEdge (node_id B) (node_id C)]) (removeNodes [A] N) {}
           (List.find (\<lambda>e. sourceHandle e = Str (afterHandle m))
              (without (node_id A) E @ [createdEdge (node_id B) (node_id C)])) = (ys', None)"
    and hs: "map (\<lambda>y. hookOf (fst y)) ys' =
             map (\<lambda>k. hookOf (findNode N k))
               (filter (\<lambda>k. k \<noteq> node_id A) (map (\<lambda>y. target (snd y)) ys))"
    by blast
  from w' have "afterHooks (without (node_id A) E @ [createdEdge (node_id B) (node_id C)])
                  (removeNodes [A] N) m = Inr (map (\<lambda>y. hookOf (fst y)) ys')"
    by (simp add: afterHooks_def descent_def descent_loop_walk case_prod_unfold)
  then show "afterHooks (without (node_id A) E @ [createdEdge (node_id B) (node_id C)])
           (removeNodes [A] N) m =
         Inr (hooksOf N (filter (\<lambda>k. k \<noteq> node_id A) (afterNodes E N m)))"
    by (simp only: hs ns hooksOf_def)
qed

lemma resolveHooks_Inr:
  assumes "resolveHooks MS E N = Inr cfg" and "m \<in> set MS"
  shows "\<exists>b a. beforeHooks E N m = Inr b \<and> afterHooks E N m = Inr a \<and>
           lookupHooks cfg ''before'' m = Some b \<and> lookupHooks cfg ''after'' m = Some a"
proof -
  have ok: "\<exists>b a. beforeHooks E N x = Inr b \<and> afterHooks E N x = Inr a" if "x \<in> set MS" for x
  proof (rule ccontr)
    assume "\<not> ?thesis"
    then have "(\<exists>err. beforeHooks E N x = Inl err) \<or> (\<exists>err. afterHooks E N x = Inl err)"
      by (cases "beforeHooks E N x"; cases "afterHooks E N x") auto
    then obtain err where "beforeHooks E N x = Inl err \<or> afterHooks E N x = Inl err" by blast
    from resolve_loop_error[OF that this] assms(1) show False by (simp add: resolveHooks_def)
  qed
  let ?B = "\<lambda>x. projr (beforeHooks E N x)" and ?A = "\<lambda>x. projr (afterHooks E N x)"
  have all: "\<forall>x\<in>set MS. beforeHooks E N x = Inr (?B x) \<and> afterHooks E N x = Inr (?A x)"
    using ok by fastforce
  from resolve_loop_ok[OF has_phases_initial all] assms all show ?thesis
    by (auto simp: resolveHooks_def)
qed

lemma deleteNodes_single:
  assumes du: "deletable_unit A B C (st_nodes st) (st_edges st)"
  shows "st_edges (structural (DeleteNodes [A]) st) =
           without (node_id A) (st_edges st) @ [createdEdge (node_id B) (node_id C)]"
    and "st_nodes (structural (DeleteNodes [A]) st) = removeNodes [A] (st_nodes st)"
  using deletable_unit_facts(1,2)[OF du]
  by (simp_all add: onNodesDelete_single without_def createdEdges_def)

text \<open>
  C5, amended. Deleting a unit \<open>A\<close> whose one incomer \<open>B\<close> and one outgoer \<open>C\<close>
  are units (with \<open>A \<rightarrow> C\<close> the only edge into \<open>C\<close> and \<open>B \<rightarrow> A\<close> the only edge out of
  \<open>B\<close>, the service apart) removes \<open>A\<close> and the edges at \<open>A\<close> and appends the one
  synthesized edge from \<open>B\<close> to \<open>C\<close>. When the hooks resolved before the deletion,
  they resolve after it. Every before and after chain was the list of the hooks of the
  nodes that its traversal went through, each of them once, and becomes the list of the
  hooks of the same nodes in the same order with \<open>A\<close> left out: the entry of \<open>A\<close> is
  removed from the chains that \<open>A\<close> was on, and nothing else changes.
\<close>

theorem delete_unit_keeps_chains:
  assumes du: "deletable_unit A B C (st_nodes st) (st_edges st)"
    and sp: "\<forall>m\<in>set MS. service_ports (st_edges st) m"
    and res: "resolveHooks MS (st_edges st) (st_nodes st) = Inr cfg"
  shows "st_nodes (applyOp MS st (DeleteNodes [A])) =
           filter (\<lambda>n. node_id n \<noteq> node_id A) (st_nodes st) \<and>
         st_edges (applyOp MS st (DeleteNodes [A])) =
           filter (\<lambda>e. source e \<noteq> node_id A \<and> target e \<noteq> node_id A) (st_edges st) @
           [createdEdge (node_id B) (node_id C)] \<and>
         (\<exists>cfg'. currentHooks (applyOp MS st (DeleteNodes [A])) = Some cfg' \<and>
            (\<forall>m\<in>set MS.
               distinct (beforeNodes (st_edges st) (st_nodes st) m) \<and>
               distinct (afterNodes (st_edges st) (st_nodes st) m) \<and>
               lookupHooks cfg ''before'' m =
                 Some (rev (hooksOf (st_nodes st) (beforeNodes (st_edges st) (st_nodes st) m))) \<and>
               lookupHooks cfg' ''before'' m =
                 Some (rev (hooksOf (st_nodes st)
                   (filter (\<lambda>k. k \<noteq> node_id A) (beforeNodes (st_edges st) (st_nodes st) m)))) \<and>
               lookupHooks cfg ''after'' m =
                 Some (hooksOf (st_nodes st) (afterNodes (st_edges st) (st_nodes st) m)) \<and>
               lookupHooks cfg' ''after'' m =
                 Some (hooksOf (st_nodes st)
                   (filter (\<lambda>k. k \<noteq> node_id A) (afterNodes (st_edges st) (st_nodes st) m)))))"
proof -
  let ?E = "st_edges st" and ?N = "st_nodes st"
  let ?E' = "without (node_id A) ?E @ [createdEdge (node_id B) (node_id C)]"
  let ?N' = "removeNodes [A] ?N"
  let ?B = "\<lambda>m. rev (hooksOf ?N (filter (\<lambda>k. k \<noteq> node_id A) (beforeNodes ?E ?N m)))"
  let ?A = "\<lambda>m. hooksOf ?N (filter (\<lambda>k. k \<noteq> node_id A) (afterNodes ?E ?N m))"
  note dn = deleteNodes_single[OF du]
  have per: "beforeHooks ?E' ?N' m = Inr (?B m) \<and> afterHooks ?E' ?N' m = Inr (?A m) \<and>
             distinct (beforeNodes ?E ?N m) \<and> distinct (afterNodes ?E ?N m) \<and>
             lookupHooks cfg ''before'' m = Some (rev (hooksOf ?N (beforeNodes ?E ?N m))) \<and>
             lookupHooks cfg ''after'' m = Some (hooksOf ?N (afterNodes ?E ?N m))"
    if m: "m \<in> set MS" for m
  proof -
    from resolveHooks_Inr[OF res m] obtain b a where
      b: "beforeHooks ?E ?N m = Inr b" and a: "afterHooks ?E ?N m = Inr a"
      and lb: "lookupHooks cfg ''before'' m = Some b" and la: "lookupHooks cfg ''after'' m = Some a"
      by blast
    from sp m have spm: "service_ports ?E m" by blast
    note bd = beforeHooks_deleted[OF du spm b] and ad = afterHooks_deleted[OF du spm a]
    from bd ad lb la show ?thesis by (simp only: simp_thms)
  qed
  then have "\<forall>m\<in>set MS. beforeHooks ?E' ?N' m = Inr (?B m) \<and> afterHooks ?E' ?N' m = Inr (?A m)"
    by blast
  from resolve_loop_ok[OF has_phases_initial this] obtain cfg' where
    r': "resolveHooks MS ?E' ?N' = Inr cfg'"
    and lb': "\<forall>m. lookupHooks cfg' ''before'' m = (if m \<in> set MS then Some (?B m) else lookupHooks [(''after'', []), (''before'', [])] ''before'' m)"
    and la': "\<forall>m. lookupHooks cfg' ''after'' m = (if m \<in> set MS then Some (?A m) else lookupHooks [(''after'', []), (''before'', [])] ''after'' m)"
    unfolding resolveHooks_def by blast
  have cur: "currentHooks (applyOp MS st (DeleteNodes [A])) = Some cfg'"
    using r' dn by (simp add: applyOp_def resolveEffect_def)
  have chains: "\<forall>m\<in>set MS.
               distinct (beforeNodes ?E ?N m) \<and> distinct (afterNodes ?E ?N m) \<and>
               lookupHooks cfg ''before'' m = Some (rev (hooksOf ?N (beforeNodes ?E ?N m))) \<and>
               lookupHooks cfg' ''before'' m = Some (?B m) \<and>
               lookupHooks cfg ''after'' m = Some (hooksOf ?N (afterNodes ?E ?N m)) \<and>
               lookupHooks cfg' ''after'' m = Some (?A m)"
    using per lb' la' by simp
  have n: "st_nodes (applyOp MS st (DeleteNodes [A])) = filter (\<lambda>n. node_id n \<noteq> node_id A) ?N"
    by (simp add: applyOp_def st_nodes_resolveEffect removeNodes_def)
  have e: "st_edges (applyOp MS st (DeleteNodes [A])) =
           filter (\<lambda>e. source e \<noteq> node_id A \<and> target e \<noteq> node_id A) ?E @
           [createdEdge (node_id B) (node_id C)]"
    using dn(1) by (simp add: applyOp_def st_edges_resolveEffect without_def)
  from n e cur chains show ?thesis by blast
qed

lemma chain_scenario_eq:
  "chain_scenario =
     [\<lparr>edge_id = ''reactflow__edge-cout-servicebefore-GET'', source = ''c'', target = ''service'',
       sourceHandle = Str ''out'', targetHandle = Str ''before-GET''\<rparr>,
      \<lparr>edge_id = ''reactflow__edge-aout-cin'', source = ''a'', target = ''c'',
       sourceHandle = Str ''out'', targetHandle = Str ''in''\<rparr>,
      \<lparr>edge_id = ''reactflow__edge-bout-ain'', source = ''b'', target = ''a'',
       sourceHandle = Str ''out'', targetHandle = Str ''in''\<rparr>]"
  by (simp add: chain_scenario_def connect_eval)

lemma port_resolved:
  "resolveHooks [''GET''] before_scenario scenario_nodes =
     Inr [(''after'', [(''GET'', [])]), (''before'', [(''GET'', [[Some ''hookB''], [Some ''hookA'']])])]"
  by (simp add: before_scenario_eq scenario_nodes_eq resolve_eval)

lemma port_deleted_edges:
  "onNodesDelete [unit_a] scenario_nodes before_scenario =
     [\<lparr>edge_id = ''b->service'', source = ''b'', target = ''service'',
       sourceHandle = Undefined, targetHandle = Undefined\<rparr>]"
  by (simp add: before_scenario_eq scenario_nodes_eq unit_a_def delete_eval)

lemma port_deleted_nodes:
  "removeNodes [unit_a] scenario_nodes =
     [\<lparr>node_id = ''service'', node_type = SERVICE_NODE_TYPE, data_id = None\<rparr>,
      \<lparr>node_id = ''b'', node_type = HOOK_NODE_TYPE, data_id = Some ''hookB''\<rparr>,
      \<lparr>node_id = ''c'', node_type = HOOK_NODE_TYPE, data_id = Some ''hookC''\<rparr>,
      \<lparr>node_id = ''d'', node_type = HOOK_NODE_TYPE, data_id = Some ''hookD''\<rparr>]"
  by (simp add: scenario_nodes_eq unit_a_def removeNodes_def)

text \<open>
  C5, as stated, fails: \<open>a\<close> has the one incomer \<open>b\<close> and the one outgoer
  \<open>service\<close>; before it is deleted the before chain of \<open>GET\<close> is the hook of \<open>b\<close>,
  then the hook of \<open>a\<close>; afterwards the chain is empty, not the hook of \<open>b\<close> alone:
  the synthesized edge carries no handle, and the walk starts at the handle
  \<open>before-GET\<close>.
\<close>

theorem delete_at_service_port_counterexample:
  "getIncomers unit_a scenario_nodes before_scenario = [unit_b] \<and>
   getOutgoers unit_a scenario_nodes before_scenario = [scenario_nodes ! 0] \<and>
   resolveHooks [''GET''] (st_edges port_state) (st_nodes port_state) =
     Inr [(''after'', [(''GET'', [])]), (''before'', [(''GET'', [[Some ''hookB''], [Some ''hookA'']])])] \<and>
   currentHooks (applyOp [''GET''] port_state (DeleteNodes [unit_a])) =
     Some [(''after'', [(''GET'', [])]), (''before'', [(''GET'', [])])]"
proof -
  have i: "getIncomers unit_a scenario_nodes before_scenario = [unit_b]"
    by (simp add: before_scenario_eq scenario_nodes_eq unit_a_def unit_b_def getIncomers_def)
  have o: "getOutgoers unit_a scenario_nodes before_scenario = [scenario_nodes ! 0]"
    by (simp add: before_scenario_eq scenario_nodes_eq unit_a_def getOutgoers_def)
  have r: "resolveHooks [''GET''] (st_edges port_state) (st_nodes port_state) =
     Inr [(''after'', [(''GET'', [])]), (''before'', [(''GET'', [[Some ''hookB''], [Some ''hookA'']])])]"
    by (simp add: port_state_def port_resolved)
  have d: "currentHooks (applyOp [''GET''] port_state (DeleteNodes [unit_a])) =
     Some [(''after'', [(''GET'', [])]), (''before'', [(''GET'', [])])]"
    by (simp add: applyOp_def resolveEffect_def port_state_def port_deleted_edges port_deleted_nodes)
       (simp add: resolve_eval)
  from i o r d show ?thesis by blast
qed

lemma chain_resolved:
  "resolveHooks [''GET''] chain_scenario scenario_nodes =
     Inr [(''after'', [(''GET'', [])]),
          (''before'', [(''GET'', [[Some ''hookB''], [Some ''hookA''], [Some ''hookC'']])])]"
  by (simp add: chain_scenario_eq scenario_nodes_eq resolve_eval)

text \<open>
  Deleting \<open>a\<close> from \<open>b \<rightarrow> a \<rightarrow> c\<close> leaves the edge of \<open>c\<close> to the service and the
  synthesized edge \<open>b \<rightarrow> c\<close>; the before walk of \<open>GET\<close> went through \<open>c\<close>, \<open>a\<close>,
  \<open>b\<close>, and the before chain, which was the hooks of \<open>b\<close>, \<open>a\<close>, \<open>c\<close>, becomes the
  hooks of \<open>b\<close>, \<open>c\<close>.
\<close>

theorem delete_unit_keeps_chains_witness:
  "deletable_unit unit_a unit_b unit_c (st_nodes chain_state) (st_edges chain_state) \<and>
   service_ports (st_edges chain_state) ''GET'' \<and>
   resolveHooks [''GET''] (st_edges chain_state) (st_nodes chain_state) =
     Inr [(''after'', [(''GET'', [])]),
          (''before'', [(''GET'', [[Some ''hookB''], [Some ''hookA''], [Some ''hookC'']])])] \<and>
   st_edges (applyOp [''GET''] chain_state (DeleteNodes [unit_a])) =
     [\<lparr>edge_id = ''reactflow__edge-cout-servicebefore-GET'', source = ''c'', target = ''service'',
       sourceHandle = Str ''out'', targetHandle = Str ''before-GET''\<rparr>,
      \<lparr>edge_id = ''b->c'', source = ''b'', target = ''c'',
       sourceHandle = Undefined, targetHandle = Undefined\<rparr>] \<and>
   beforeNodes (st_edges chain_state) (st_nodes chain_state) ''GET'' = [''c'', ''a'', ''b''] \<and>
   (\<exists>cfg'. currentHooks (applyOp [''GET''] chain_state (DeleteNodes [unit_a])) = Some cfg' \<and>
      lookupHooks cfg' ''before'' ''GET'' = Some [[Some ''hookB''], [Some ''hookC'']] \<and>
      lookupHooks cfg' ''after'' ''GET'' = Some [])"
proof -
  let ?cfg = "[(''after'', [(''GET'', [])]),
          (''before'', [(''GET'', [[Some ''hookB''], [Some ''hookA''], [Some ''hookC'']])])]"
  have du: "deletable_unit unit_a unit_b unit_c (st_nodes chain_state) (st_edges chain_state)"
    by (simp add: chain_state_def chain_scenario_eq scenario_nodes_eq unit_a_def unit_b_def unit_c_def
        deletable_unit_def getIncomers_def getOutgoers_def SERVICE_ID_def)
  have sp: "\<forall>m\<in>set [''GET'']. service_ports (st_edges chain_state) m"
    by (simp add: chain_state_def chain_scenario_eq service_ports_def beforeHandle_def afterHandle_def
        SERVICE_ID_def)
  have r: "resolveHooks [''GET''] (st_edges chain_state) (st_nodes chain_state) = Inr ?cfg"
    by (simp add: chain_state_def chain_resolved)
  have bn: "beforeNodes (st_edges chain_state) (st_nodes chain_state) ''GET'' = [''c'', ''a'', ''b'']"
    by (simp add: beforeNodes_def chain_state_def chain_scenario_eq scenario_nodes_eq loop_eval)
  have an: "afterNodes (st_edges chain_state) (st_nodes chain_state) ''GET'' = []"
    by (simp add: afterNodes_def chain_state_def chain_scenario_eq scenario_nodes_eq loop_eval)
  have hb: "rev (hooksOf (st_nodes chain_state) (filter (\<lambda>k. k \<noteq> node_id unit_a) [''c'', ''a'', ''b''])) =
            [[Some ''hookB''], [Some ''hookC'']]"
    by (simp add: hooksOf_def chain_state_def scenario_nodes_eq unit_a_def hookOf_def findNode_def)
  have ha: "hooksOf (st_nodes chain_state) (filter (\<lambda>k. k \<noteq> node_id unit_a) []) = []"
    by (simp add: hooksOf_def)
  have f: "filter (\<lambda>e. source e \<noteq> node_id unit_a \<and> target e \<noteq> node_id unit_a) (st_edges chain_state) @
           [createdEdge (node_id unit_b) (node_id unit_c)] =
     [\<lparr>edge_id = ''reactflow__edge-cout-servicebefore-GET'', source = ''c'', target = ''service'',
       sourceHandle = Str ''out'', targetHandle = Str ''before-GET''\<rparr>,
      \<lparr>edge_id = ''b->c'', source = ''b'', target = ''c'',
       sourceHandle = Undefined, targetHandle = Undefined\<rparr>]"
    by (simp add: chain_state_def chain_scenario_eq unit_a_def unit_b_def unit_c_def createdEdge_def)
  from delete_unit_keeps_chains[OF du sp r] obtain cfg' where
    e: "st_edges (applyOp [''GET''] chain_state (DeleteNodes [unit_a])) =
          filter (\<lambda>e. source e \<noteq> node_id unit_a \<and> target e \<noteq> node_id unit_a) (st_edges chain_state) @
          [createdEdge (node_id unit_b) (node_id unit_c)]"
    and c: "currentHooks (applyOp [''GET''] chain_state (DeleteNodes [unit_a])) = Some cfg'"
    and lb: "lookupHooks cfg' ''before'' ''GET'' =
          Some (rev (hooksOf (st_nodes chain_state)
            (filter (\<lambda>k. k \<noteq> node_id unit_a) (beforeNodes (st_edges chain_state) (st_nodes chain_state) ''GET''))))"
    and la: "lookupHooks cfg' ''after'' ''GET'' =
          Some (hooksOf (st_nodes chain_state)
            (filter (\<lambda>k. k \<noteq> node_id unit_a) (afterNodes (st_edges chain_state) (st_nodes chain_state) ''GET'')))"
    by auto
  from lb la have "lookupHooks cfg' ''before'' ''GET'' = Some [[Some ''hookB''], [Some ''hookC'']]"
    "lookupHooks cfg' ''after'' ''GET'' = Some []"
    by (simp_all only: bn an hb ha)
  with c e f du sp r bn show ?thesis by auto
qed

text \<open>
  When the incomer \<open>b\<close> of the deleted unit \<open>a\<close> has a second edge, to \<open>d\<close>, the
  synthesized edge from \<open>b\<close> to \<open>c\<close> comes last in the edge list and the after walk
  takes the edge to \<open>d\<close>: the after chain of \<open>GET\<close> was \<open>b\<close>, \<open>a\<close>, \<open>c\<close> and
  becomes \<open>b\<close>, \<open>d\<close>.
\<close>

lemma delete_beside_fanout:
  "resolveHooks [''GET''] (st_edges fanout_chain_state) (st_nodes fanout_chain_state) =
     Inr [(''after'', [(''GET'', [[Some ''hookB''], [Some ''hookA''], [Some ''hookC'']])]),
          (''before'', [(''GET'', [])])] \<and>
   currentHooks (applyOp [''GET''] fanout_chain_state (DeleteNodes [unit_a])) =
     Some [(''after'', [(''GET'', [[Some ''hookB''], [Some ''hookD'']])]),
           (''before'', [(''GET'', [])])]"
proof -
  have e: "st_edges fanout_chain_state =
     [\<lparr>edge_id = ''reactflow__edge-serviceafter-GET-bin'', source = ''service'', target = ''b'',
       sourceHandle = Str ''after-GET'', targetHandle = Str ''in''\<rparr>,
      \<lparr>edge_id = ''reactflow__edge-bout-ain'', source = ''b'', target = ''a'',
       sourceHandle = Str ''out'', targetHandle = Str ''in''\<rparr>,
      \<lparr>edge_id = ''reactflow__edge-bout-din'', source = ''b'', target = ''d'',
       sourceHandle = Str ''out'', targetHandle = Str ''in''\<rparr>,
      \<lparr>edge_id = ''reactflow__edge-aout-cin'', source = ''a'', target = ''c'',
       sourceHandle = Str ''out'', targetHandle = Str ''in''\<rparr>]"
    by (simp add: fanout_chain_state_def connect_eval)
  have n: "st_nodes fanout_chain_state = scenario_nodes" by (simp add: fanout_chain_state_def)
  have 1: "resolveHooks [''GET''] (st_edges fanout_chain_state) (st_nodes fanout_chain_state) =
     Inr [(''after'', [(''GET'', [[Some ''hookB''], [Some ''hookA''], [Some ''hookC'']])]),
          (''before'', [(''GET'', [])])]"
    by (simp add: e n scenario_nodes_eq resolve_eval)
  have d: "onNodesDelete [unit_a] scenario_nodes (st_edges fanout_chain_state) =
     [\<lparr>edge_id = ''reactflow__edge-serviceafter-GET-bin'', source = ''service'', target = ''b'',
       sourceHandle = Str ''after-GET'', targetHandle = Str ''in''\<rparr>,
      \<lparr>edge_id = ''reactflow__edge-bout-din'', source = ''b'', target = ''d'',
       sourceHandle = Str ''out'', targetHandle = Str ''in''\<rparr>,
      \<lparr>edge_id = ''b->c'', source = ''b'', target = ''c'',
       sourceHandle = Undefined, targetHandle = Undefined\<rparr>]"
    by (simp add: e scenario_nodes_eq unit_a_def delete_eval)
  have 2: "currentHooks (applyOp [''GET''] fanout_chain_state (DeleteNodes [unit_a])) =
     Some [(''after'', [(''GET'', [[Some ''hookB''], [Some ''hookD'']])]),
           (''before'', [(''GET'', [])])]"
    by (simp add: applyOp_def resolveEffect_def n d port_deleted_nodes) (simp add: resolve_eval)
  from 1 2 show ?thesis by blast
qed

section \<open>The change detector\<close>

lemmas stringify_eval = hooksChanged_def JSON_stringify_def stringify_config_def stringify_object_def
  stringify_array_def stringify_hook_id_def quoteJSONString_def quote_char_def

text \<open>
  C7, as stated, fails: the two configurations have the same method keys with the same
  chains, in different orders, and the change detector reports a difference.
\<close>

theorem key_order_detected_counterexample:
  "same_chains config_get_post config_post_get \<and>
   hooksChanged (Some config_get_post) (Some config_post_get)"
  by (simp add: config_get_post_def config_post_get_def same_chains_def same_methods_def stringify_eval
      insert_commute)

text \<open>
  The order of the two phase keys is detected as well: the same chains with \<open>before\<close>
  in front of \<open>after\<close> are reported as a change.
\<close>

lemma phase_order_detected:
  "same_chains config_get_post config_before_after \<and>
   hooksChanged (Some config_get_post) (Some config_before_after)"
  by (simp add: config_get_post_def config_before_after_def same_chains_def same_methods_def stringify_eval
      insert_commute)

lemma alist_eqI:
  "map fst x = map fst y \<Longrightarrow> distinct (map fst x) \<Longrightarrow>
   (\<forall>k\<in>set (map fst x). map_of x k = map_of y k) \<Longrightarrow> x = y"
proof (induction x arbitrary: y)
  case Nil
  then show ?case by simp
next
  case (Cons kv x)
  then obtain kv' y' where y: "y = kv' # y'" by (cases y) auto
  with Cons.prems have k: "fst kv = fst kv'" and m: "map fst x = map fst y'"
    and d: "distinct (map fst x)" and nk: "fst kv \<notin> set (map fst x)" by auto
  from Cons.prems(3) y k have "snd kv = snd kv'" by (cases kv; cases kv') auto
  with k have kv: "kv = kv'" by (simp add: prod_eq_iff)
  have "\<forall>j\<in>set (map fst x). map_of x j = map_of y' j"
  proof
    fix j assume j: "j \<in> set (map fst x)"
    with nk have "j \<noteq> fst kv" by blast
    with Cons.prems(3) j y kv show "map_of x j = map_of y' j" by (cases kv') auto
  qed
  from Cons.IH[OF m d this] kv y show ?case by simp
qed

section \<open>Reading back what JSON.stringify prints\<close>

lemma hex_digit_inj:
  assumes "m < 16" "n < 16" "hex_digit m = hex_digit n"
  shows "m = n"
proof -
  have d: "distinct ''0123456789abcdef''" by simp
  have l: "length ''0123456789abcdef'' = 16" by simp
  from assms have "''0123456789abcdef'' ! m = ''0123456789abcdef'' ! n"
    by (simp add: hex_digit_def)
  with d l assms(1,2) show ?thesis by (simp add: nth_eq_iff_index_eq)
qed

lemma hex_pair_inj:
  assumes "(m::nat) < 32" "n < 32" "hex_digit (m div 16) = hex_digit (n div 16)"
    "hex_digit m = hex_digit n"
  shows "m = n"
proof -
  from assms(1,2) have "m div 16 < 16" "n div 16 < 16" by simp_all
  from hex_digit_inj[OF this assms(3)] have a: "m div 16 = n div 16" .
  have "hex_digit (m mod 16) = hex_digit (n mod 16)" using assms(4) by (simp add: hex_digit_def)
  from hex_digit_inj[OF _ _ this] have b: "m mod 16 = n mod 16" by simp
  from a b show ?thesis by (metis div_mult_mod_eq)
qed

lemma quote_char_first:
  "\<exists>c' cs. quote_char c = c' # cs \<and> c' \<noteq> CHR 0x22"
  by (simp add: quote_char_def)

lemma quote_char_inj:
  "quote_char c @ r = quote_char d @ r' \<Longrightarrow> c = d \<and> r = r'"
  using hex_pair_inj[of "of_char c" "of_char d"]
  by (auto simp: quote_char_def split: if_splits)

lemma escaped_inj:
  "concat (map quote_char s) @ CHR 0x22 # r = concat (map quote_char t) @ CHR 0x22 # r' \<Longrightarrow>
   s = t \<and> r = r'"
proof (induction s arbitrary: t)
  case Nil
  show ?case
  proof (cases t)
    case Nil
    with Nil.prems show ?thesis by simp
  next
    case (Cons d t')
    from quote_char_first[of d] obtain c' cs where "quote_char d = c' # cs" "c' \<noteq> CHR 0x22" by blast
    with Nil.prems Cons show ?thesis by simp
  qed
next
  case (Cons c s)
  show ?case
  proof (cases t)
    case Nil
    from quote_char_first[of c] obtain c' cs where "quote_char c = c' # cs" "c' \<noteq> CHR 0x22" by blast
    with Cons.prems Nil show ?thesis by simp
  next
    case t: (Cons d t')
    with Cons.prems have
      "quote_char c @ (concat (map quote_char s) @ CHR 0x22 # r) =
       quote_char d @ (concat (map quote_char t') @ CHR 0x22 # r')" by simp
    from quote_char_inj[OF this] have cd: "c = d"
      and rest: "concat (map quote_char s) @ CHR 0x22 # r = concat (map quote_char t') @ CHR 0x22 # r'"
      by simp_all
    from Cons.IH[OF rest] cd t show ?thesis by simp
  qed
qed

lemma quoteJSONString_inj:
  assumes "quoteJSONString x @ r = quoteJSONString y @ r'"
  shows "x = y \<and> r = r'"
proof -
  from assms have
    "concat (map quote_char x) @ CHR 0x22 # r = concat (map quote_char y) @ CHR 0x22 # r'"
    by (simp add: quoteJSONString_def)
  then show ?thesis by (rule escaped_inj)
qed

lemma quoteJSONString_self_delimiting: "self_delimiting quoteJSONString"
  unfolding self_delimiting_def using quoteJSONString_inj by blast

lemma stringify_hook_id_self_delimiting: "self_delimiting stringify_hook_id"
  unfolding self_delimiting_def
proof (intro allI impI)
  fix x y :: "string option" and r r' :: string
  assume a: "stringify_hook_id x @ r = stringify_hook_id y @ r'"
  show "x = y \<and> r = r'"
  proof (cases x)
    case None
    with a show ?thesis by (cases y) (simp_all add: stringify_hook_id_def quoteJSONString_def)
  next
    case x: (Some s)
    show ?thesis
    proof (cases y)
      case None
      with a x show ?thesis by (simp add: stringify_hook_id_def quoteJSONString_def)
    next
      case (Some t)
      with a x have "quoteJSONString s @ r = quoteJSONString t @ r'"
        by (simp add: stringify_hook_id_def)
      from quoteJSONString_inj[OF this] x Some show ?thesis by simp
    qed
  qed
qed

lemma stringify_hook_id_opener: "opener stringify_hook_id"
  unfolding opener_def
proof
  fix x :: "string option"
  show "\<exists>c cs. stringify_hook_id x = c # cs \<and> c \<noteq> CHR '']'' \<and> c \<noteq> CHR ''}''"
    by (cases x) (simp_all add: stringify_hook_id_def quoteJSONString_def)
qed

lemma join_Cons: "join sep (x # xs) = x @ concat (map (\<lambda>y. sep @ y) xs)"
  by (induction sep xs arbitrary: x rule: join.induct) simp_all

lemma rest_inj:
  assumes sd: "self_delimiting f" and e: "e \<noteq> CHR '',''"
  shows "concat (map (\<lambda>y. '','' @ f y) xs) @ e # r = concat (map (\<lambda>y. '','' @ f y) ys) @ e # r' \<Longrightarrow>
         xs = ys \<and> r = r'"
proof (induction xs arbitrary: ys)
  case Nil
  with e show ?case by (cases ys) auto
next
  case (Cons x xs)
  show ?case
  proof (cases ys)
    case Nil
    with Cons.prems e show ?thesis by auto
  next
    case ys: (Cons y ys')
    with Cons.prems have
      "f x @ (concat (map (\<lambda>y. '','' @ f y) xs) @ e # r) =
       f y @ (concat (map (\<lambda>y. '','' @ f y) ys') @ e # r')" by simp
    with sd have xy: "x = y"
      and rest: "concat (map (\<lambda>y. '','' @ f y) xs) @ e # r = concat (map (\<lambda>y. '','' @ f y) ys') @ e # r'"
      unfolding self_delimiting_def by blast+
    from Cons.IH[OF rest] xy ys show ?thesis by simp
  qed
qed

lemma bracketed_inj:
  assumes sd: "self_delimiting f" and op: "opener f" and e: "e = CHR '']'' \<or> e = CHR ''}''"
  shows "join '','' (map f xs) @ e # r = join '','' (map f ys) @ e # r' \<Longrightarrow> xs = ys \<and> r = r'"
proof -
  assume a: "join '','' (map f xs) @ e # r = join '','' (map f ys) @ e # r'"
  have ne: "e \<noteq> CHR '',''" using e by auto
  have clash: "\<And>z zs R R'. e # R = join '','' (map f (z # zs)) @ R' \<Longrightarrow> False"
  proof -
    fix z zs R R' assume b: "e # R = join '','' (map f (z # zs)) @ R'"
    from op obtain c cs where "f z = c # cs" "c \<noteq> CHR '']''" "c \<noteq> CHR ''}''"
      unfolding opener_def by blast
    with b e show False by (auto simp: join_Cons)
  qed
  show ?thesis
  proof (cases xs; cases ys)
    assume "xs = []" "ys = []"
    with a show ?thesis by simp
  next
    fix y ys' assume "xs = []" "ys = y # ys'"
    with a clash[of r y ys' "e # r'"] show ?thesis by simp
  next
    fix x xs' assume "xs = x # xs'" "ys = []"
    with a clash[of r' x xs' "e # r"] show ?thesis by simp
  next
    fix x xs' y ys' assume xs: "xs = x # xs'" and ys: "ys = y # ys'"
    with a have
      "f x @ (concat (map (\<lambda>y. '','' @ f y) xs') @ e # r) =
       f y @ (concat (map (\<lambda>y. '','' @ f y) ys') @ e # r')"
      by (simp add: join_Cons comp_def)
    with sd have xy: "x = y"
      and rest: "concat (map (\<lambda>y. '','' @ f y) xs') @ e # r = concat (map (\<lambda>y. '','' @ f y) ys') @ e # r'"
      unfolding self_delimiting_def by blast+
    from rest_inj[OF sd ne rest] xy xs ys show ?thesis by simp
  qed
qed

lemma stringify_array_self_delimiting:
  assumes "self_delimiting f" "opener f"
  shows "self_delimiting (stringify_array f)"
  unfolding self_delimiting_def
proof (intro allI impI)
  fix xs ys :: "'a list" and r r' :: string
  assume "stringify_array f xs @ r = stringify_array f ys @ r'"
  then have eq: "join '','' (map f xs) @ CHR '']'' # r = join '','' (map f ys) @ CHR '']'' # r'"
    by (simp add: stringify_array_def)
  have e: "CHR '']'' = CHR '']'' \<or> CHR '']'' = CHR ''}''" by simp
  from bracketed_inj[OF assms e eq] show "xs = ys \<and> r = r'" .
qed

lemma stringify_array_opener: "opener (stringify_array f)"
  by (simp add: opener_def stringify_array_def)

lemma property_self_delimiting:
  assumes "self_delimiting f"
  shows "self_delimiting (\<lambda>(k, v). quoteJSONString k @ '':'' @ f v)"
  unfolding self_delimiting_def
proof (intro allI impI)
  fix x y :: "string \<times> 'a" and r r' :: string
  obtain k v where x: "x = (k, v)" by (cases x)
  obtain k' v' where y: "y = (k', v')" by (cases y)
  assume "(case x of (k, v) \<Rightarrow> quoteJSONString k @ '':'' @ f v) @ r =
          (case y of (k, v) \<Rightarrow> quoteJSONString k @ '':'' @ f v) @ r'"
  with x y have "quoteJSONString k @ ('':'' @ f v @ r) = quoteJSONString k' @ ('':'' @ f v' @ r')"
    by simp
  from quoteJSONString_inj[OF this] have k: "k = k'" and "'':'' @ f v @ r = '':'' @ f v' @ r'"
    by simp_all
  then have "f v @ r = f v' @ r'" by simp
  with assms have "v = v'" "r = r'" unfolding self_delimiting_def by blast+
  with k x y show "x = y \<and> r = r'" by simp
qed

lemma property_opener: "opener (\<lambda>(k, v). quoteJSONString k @ '':'' @ f v)"
  by (simp add: opener_def quoteJSONString_def case_prod_unfold)

lemma stringify_object_self_delimiting:
  assumes "self_delimiting f"
  shows "self_delimiting (stringify_object f)"
  unfolding self_delimiting_def
proof (intro allI impI)
  fix xs ys :: "(string \<times> 'a) list" and r r' :: string
  let ?g = "\<lambda>(k, v). quoteJSONString k @ '':'' @ f v"
  assume "stringify_object f xs @ r = stringify_object f ys @ r'"
  then have eq: "join '','' (map ?g xs) @ CHR ''}'' # r = join '','' (map ?g ys) @ CHR ''}'' # r'"
    by (simp add: stringify_object_def)
  have e: "CHR ''}'' = CHR '']'' \<or> CHR ''}'' = CHR ''}''" by simp
  from bracketed_inj[OF property_self_delimiting[OF assms] property_opener e eq]
  show "xs = ys \<and> r = r'" .
qed

lemma stringify_object_opener: "opener (stringify_object f)"
  by (simp add: opener_def stringify_object_def)

lemma stringify_config_inj: "stringify_config a = stringify_config b \<Longrightarrow> a = b"
proof -
  have "self_delimiting stringify_config"
    unfolding stringify_config_def
    by (intro stringify_object_self_delimiting stringify_array_self_delimiting
        stringify_hook_id_self_delimiting stringify_hook_id_opener stringify_array_opener)
  moreover assume "stringify_config a = stringify_config b"
  then have "stringify_config a @ [] = stringify_config b @ []" by simp
  ultimately show ?thesis unfolding self_delimiting_def by blast
qed

lemma hooksChanged_iff: "hooksChanged (Some a) (Some b) \<longleftrightarrow> a \<noteq> b"
  using stringify_config_inj by (auto simp: hooksChanged_def JSON_stringify_def)


text \<open>
  C7, amended. The change detector reports no difference between two configurations
  exactly when they hold the same chains and their keys come in the same order, the
  phase keys \<open>after\<close> and \<open>before\<close> as well as the method keys of each phase: the
  comparison is sensitive to the order of the keys at both levels.
\<close>

theorem no_change_iff_same_order:
  assumes "well_keyed a"
  shows "\<not> hooksChanged (Some a) (Some b) \<longleftrightarrow> same_chains a b \<and> same_key_order a b"
proof
  assume "\<not> hooksChanged (Some a) (Some b)"
  then have ab: "a = b" by (simp add: hooksChanged_iff)
  have "\<forall>p\<in>set (map fst a). \<exists>x. map_of a p = Some x"
    by (metis map_of_eq_None_iff not_Some_eq set_map)
  then have "same_chains a a" "same_key_order a a"
    unfolding same_chains_def same_key_order_def same_methods_def by fastforce+
  with ab show "same_chains a b \<and> same_key_order a b" by simp
next
  assume sc: "same_chains a b \<and> same_key_order a b"
  have "\<forall>p\<in>set (map fst a). map_of a p = map_of b p"
  proof
    fix p assume p: "p \<in> set (map fst a)"
    with sc have "case (map_of a p, map_of b p) of
        (Some x, Some y) \<Rightarrow> same_methods x y | _ \<Rightarrow> False"
      unfolding same_chains_def by blast
    then obtain x y where x: "map_of a p = Some x" and y: "map_of b p = Some y"
      and sm: "same_methods x y"
      by (cases "map_of a p"; cases "map_of b p") auto
    from p sc have "case (map_of a p, map_of b p) of
        (Some x, Some y) \<Rightarrow> map fst x = map fst y | _ \<Rightarrow> False"
      unfolding same_key_order_def by blast
    with x y have ko: "map fst x = map fst y" by simp
    from x have "x \<in> set (map snd a)" by (force dest: map_of_SomeD)
    with assms have "distinct (map fst x)" unfolding well_keyed_def by blast
    from alist_eqI[OF ko this] sm have "x = y" by (simp add: same_methods_def)
    with x y show "map_of a p = map_of b p" by simp
  qed
  moreover from assms sc have "map fst a = map fst b" "distinct (map fst a)"
    by (simp_all add: same_key_order_def well_keyed_def)
  ultimately have "a = b" by (rule alist_eqI[rotated 2])
  then show "\<not> hooksChanged (Some a) (Some b)" by (simp add: hooksChanged_def)
qed

text \<open>
  The configuration with \<open>GET\<close> before \<open>POST\<close>, once written down and once built
  by assigning the chain of \<open>GET\<close>.
\<close>

theorem no_change_iff_same_order_witness:
  "well_keyed config_get_post \<and>
   same_chains config_get_post
     (set_hooks ''before'' ''GET'' [[Some ''log'']]
        [(''after'', [(''GET'', []), (''POST'', [])]), (''before'', [(''GET'', []), (''POST'', [])])]) \<and>
   same_key_order config_get_post
     (set_hooks ''before'' ''GET'' [[Some ''log'']]
        [(''after'', [(''GET'', []), (''POST'', [])]), (''before'', [(''GET'', []), (''POST'', [])])]) \<and>
   \<not> hooksChanged (Some config_get_post)
     (Some (set_hooks ''before'' ''GET'' [[Some ''log'']]
        [(''after'', [(''GET'', []), (''POST'', [])]), (''before'', [(''GET'', []), (''POST'', [])])]))"
proof -
  let ?b = "set_hooks ''before'' ''GET'' [[Some ''log'']]
        [(''after'', [(''GET'', []), (''POST'', [])]), (''before'', [(''GET'', []), (''POST'', [])])]"
  have w: "well_keyed config_get_post" by (simp add: config_get_post_def well_keyed_def)
  have c: "same_chains config_get_post ?b"
    by (simp add: config_get_post_def same_chains_def same_methods_def set_hooks_def)
  have k: "same_key_order config_get_post ?b"
    by (simp add: config_get_post_def same_key_order_def set_hooks_def)
  from no_change_iff_same_order[OF w, of ?b] w c k show ?thesis by blast
qed

section \<open>The edge ids the editor makes\<close>

text \<open>
  The ids made by \<open>addEdge\<close> and by \<open>onNodesDelete\<close> contain a hyphen, which no
  property name of \<^verbatim>\<open>Object.prototype\<close> does: in a graph built by the operations of the
  editor from the empty graph no edge counts as visited before it is.
\<close>

lemma hyphenated_not_proto:
  "hyphenated E \<Longrightarrow> e \<in> set E \<Longrightarrow> edge_id e \<notin> set objectPrototypeKeys"
proof
  assume "hyphenated E" "e \<in> set E"
  then have h: "CHR ''-'' \<in> set (edge_id e)" by (simp add: hyphenated_def)
  assume "edge_id e \<in> set objectPrototypeKeys"
  moreover have "\<forall>k\<in>set objectPrototypeKeys. CHR ''-'' \<notin> set k"
    by (simp add: objectPrototypeKeys_def)
  ultimately show False using h by blast
qed

lemma hyphenated_onConnect: "hyphenated E \<Longrightarrow> hyphenated (onConnect c E)"
  by (auto simp: hyphenated_def onConnect_def addEdge_def getEdgeId_def Let_def
      split: option.splits if_splits)

lemma hyphenated_deleteStep:
  "\<forall>x\<in>set acc. CHR ''-'' \<in> set (edge_id (snd x)) \<Longrightarrow>
   \<forall>x\<in>set (deleteStep N E acc node). CHR ''-'' \<in> set (edge_id (snd x))"
  by (auto simp: deleteStep_def Let_def createdEdges_def createdEdge_def)

lemma hyphenated_foldl:
  "\<forall>x\<in>set acc. CHR ''-'' \<in> set (edge_id (snd x)) \<Longrightarrow>
   \<forall>x\<in>set (foldl (deleteStep N E) acc ds). CHR ''-'' \<in> set (edge_id (snd x))"
proof (induction ds arbitrary: acc)
  case Nil
  then show ?case by simp
next
  case (Cons d ds)
  from Cons.IH[OF hyphenated_deleteStep[OF Cons.prems]] show ?case by simp
qed

lemma hyphenated_onNodesDelete: "hyphenated E \<Longrightarrow> hyphenated (onNodesDelete ds N E)"
proof -
  assume "hyphenated E"
  then have "\<forall>x\<in>set (map (Pair True) E). CHR ''-'' \<in> set (edge_id (snd x))"
    by (simp add: hyphenated_def)
  from hyphenated_foldl[OF this] show ?thesis
    by (simp add: hyphenated_def onNodesDelete_def)
qed

lemma hyphenated_applyOp: "hyphenated (st_edges st) \<Longrightarrow> hyphenated (st_edges (applyOp MS st op))"
  by (cases op)
     (simp_all add: applyOp_def st_edges_resolveEffect hyphenated_onConnect hyphenated_onNodesDelete)

lemma hyphenated_applyOps:
  "hyphenated (st_edges st) \<Longrightarrow> hyphenated (st_edges (applyOps MS st ops))"
proof (induction ops arbitrary: st)
  case Nil
  then show ?case by (simp add: applyOps_def)
next
  case (Cons op ops)
  from Cons.IH[OF hyphenated_applyOp[OF Cons.prems]] show ?case by (simp add: applyOps_def)
qed

lemma editor_ids_not_proto:
  "e \<in> set (st_edges (applyOps MS initialState ops)) \<Longrightarrow> edge_id e \<notin> set objectPrototypeKeys"
proof -
  have "hyphenated (st_edges initialState)" by (simp add: hyphenated_def initialState_def)
  from hyphenated_not_proto[OF hyphenated_applyOps[OF this]] show
    "e \<in> set (st_edges (applyOps MS initialState ops)) \<Longrightarrow> edge_id e \<notin> set objectPrototypeKeys" .
qed

section \<open>The graphs the editor makes\<close>

text \<open>
  Every graph that the editor builds from its initial state, by connections between
  handles that the nodes offer, by added hooks and by deletions, has its edges
  identified by their ids and carries the port names \<^verbatim>\<open>before-M\<close> and \<^verbatim>\<open>after-M\<close> on the
  service node only.
\<close>

lemma split_at:
  "c \<notin> set p \<Longrightarrow> c \<notin> set p' \<Longrightarrow> p @ c # r = p' @ c # r' \<Longrightarrow> p = p' \<and> r = r'"
proof (induction p arbitrary: p')
  case Nil
  then show ?case by (cases p') auto
next
  case (Cons x p)
  then show ?case by (cases p') auto
qed

lemma src_parse:
  assumes "plain s" "plain s'" "out_handle s h" "out_handle s' h'"
    and eq: "s @ orEmpty h @ CHR ''-'' # T = s' @ orEmpty h' @ CHR ''-'' # T'"
  shows "s = s' \<and> T = T'"
proof (cases "s = SERVICE_ID"; cases "s' = SERVICE_ID")
  assume a: "s = SERVICE_ID" "s' = SERVICE_ID"
  with assms obtain m m' where m: "plain m" "h = Str (afterHandle m)" "plain m'" "h' = Str (afterHandle m')"
    by (auto simp: out_handle_def)
  with eq a have "m @ CHR ''-'' # T = m' @ CHR ''-'' # T'"
    by (simp add: orEmpty_def afterHandle_def)
  from split_at[OF _ _ this] m a show ?thesis by (simp add: plain_def)
next
  assume a: "s = SERVICE_ID" "s' \<noteq> SERVICE_ID"
  with assms obtain m where m: "h = Str (afterHandle m)" "h' = Str ''out''"
    by (auto simp: out_handle_def)
  with eq a have "''serviceafter'' @ CHR ''-'' # (m @ CHR ''-'' # T) = (s' @ ''out'') @ CHR ''-'' # T'"
    by (simp add: orEmpty_def afterHandle_def SERVICE_ID_def)
  from split_at[OF _ _ this] assms(2) have "''serviceafter'' = s' @ ''out''" by (simp add: plain_def)
  then have "last ''serviceafter'' = last (s' @ ''out'')" by simp
  then show ?thesis by simp
next
  assume a: "s \<noteq> SERVICE_ID" "s' = SERVICE_ID"
  with assms obtain m where m: "h' = Str (afterHandle m)" "h = Str ''out''"
    by (auto simp: out_handle_def)
  with eq a have "(s @ ''out'') @ CHR ''-'' # T = ''serviceafter'' @ CHR ''-'' # (m @ CHR ''-'' # T')"
    by (simp add: orEmpty_def afterHandle_def SERVICE_ID_def)
  from split_at[OF _ _ this] assms(1) have "s @ ''out'' = ''serviceafter''" by (simp add: plain_def)
  then have "last (s @ ''out'') = last ''serviceafter''" by simp
  then show ?thesis by simp
next
  assume a: "s \<noteq> SERVICE_ID" "s' \<noteq> SERVICE_ID"
  with assms have m: "h = Str ''out''" "h' = Str ''out''" by (auto simp: out_handle_def)
  with eq have "(s @ ''out'') @ CHR ''-'' # T = (s' @ ''out'') @ CHR ''-'' # T'"
    by (simp add: orEmpty_def)
  from split_at[OF _ _ this] assms(1,2) show ?thesis by (simp add: plain_def)
qed

lemma tgt_parse:
  assumes "plain t" "plain t'" "in_handle t h" "in_handle t' h'"
    and eq: "t @ orEmpty h = t' @ orEmpty h'"
  shows "t = t'"
proof (cases "t = SERVICE_ID"; cases "t' = SERVICE_ID")
  assume "t = SERVICE_ID" "t' = SERVICE_ID"
  then show ?thesis by simp
next
  assume a: "t = SERVICE_ID" "t' \<noteq> SERVICE_ID"
  with assms obtain m where m: "h = Str (beforeHandle m)" "h' = Str ''in''"
    by (auto simp: in_handle_def)
  with eq have "t' @ ''in'' = t @ ''before'' @ CHR ''-'' # m"
    by (simp add: orEmpty_def beforeHandle_def)
  then have "CHR ''-'' \<in> set (t' @ ''in'')" by simp
  with assms(2) show ?thesis by (simp add: plain_def)
next
  assume a: "t \<noteq> SERVICE_ID" "t' = SERVICE_ID"
  with assms obtain m where m: "h' = Str (beforeHandle m)" "h = Str ''in''"
    by (auto simp: in_handle_def)
  with eq have "t @ ''in'' = t' @ ''before'' @ CHR ''-'' # m"
    by (simp add: orEmpty_def beforeHandle_def)
  then have "CHR ''-'' \<in> set (t @ ''in'')" by simp
  with assms(1) show ?thesis by (simp add: plain_def)
next
  assume a: "t \<noteq> SERVICE_ID" "t' \<noteq> SERVICE_ID"
  with assms have "h = Str ''in''" "h' = Str ''in''" by (auto simp: in_handle_def)
  with eq show ?thesis by (simp add: orEmpty_def)
qed


lemma hyphen_not_proto: "CHR ''-'' \<in> set k \<Longrightarrow> k \<notin> set objectPrototypeKeys"
proof
  assume "CHR ''-'' \<in> set k" "k \<in> set objectPrototypeKeys"
  moreover have "\<forall>k\<in>set objectPrototypeKeys. CHR ''-'' \<notin> set k"
    by (simp add: objectPrototypeKeys_def)
  ultimately show False by blast
qed

lemma editor_edge_cases:
  assumes "editor_edge e"
  obtains (made) "plain (source e)" "plain (target e)" "source e \<noteq> []"
      "edge_id e = ''reactflow__edge'' @ CHR ''-'' #
         (source e @ orEmpty (sourceHandle e) @ CHR ''-'' # (target e @ orEmpty (targetHandle e)))"
      "out_handle (source e) (sourceHandle e)" "in_handle (target e) (targetHandle e)"
    | (synthesized) "plain (source e)" "plain (target e)"
      "edge_id e = source e @ CHR ''-'' # (CHR ''>'' # target e)"
      "sourceHandle e = Undefined" "targetHandle e = Undefined"
proof -
  from assms have p: "plain (source e)" "plain (target e)" by (simp_all add: editor_edge_def)
  from assms consider
    "source e \<noteq> []" "edge_id e = getEdgeId (source e) (sourceHandle e) (target e) (targetHandle e)"
      "out_handle (source e) (sourceHandle e)" "in_handle (target e) (targetHandle e)"
    | "e = createdEdge (source e) (target e)"
    unfolding editor_edge_def by blast
  then show thesis
  proof cases
    case 1
    from 1(2) have "edge_id e = ''reactflow__edge'' @ CHR ''-'' #
         (source e @ orEmpty (sourceHandle e) @ CHR ''-'' # (target e @ orEmpty (targetHandle e)))"
      by (simp add: getEdgeId_def)
    from made[OF p 1(1) this 1(3,4)] show ?thesis .
  next
    case 2
    then have "edge_id e = edge_id (createdEdge (source e) (target e))"
      "sourceHandle e = sourceHandle (createdEdge (source e) (target e))"
      "targetHandle e = targetHandle (createdEdge (source e) (target e))" by simp_all
    then have "edge_id e = source e @ CHR ''-'' # (CHR ''>'' # target e)"
      "sourceHandle e = Undefined" "targetHandle e = Undefined"
      by (simp_all add: createdEdge_def)
    from synthesized[OF p this] show ?thesis .
  qed
qed

lemma editor_edge_same_id:
  assumes e: "editor_edge e" and e': "editor_edge e'" and eq: "edge_id e' = edge_id e"
  shows "source e' = source e \<and> target e' = target e"
proof -
  have ne: "CHR ''-'' \<notin> set ''reactflow__edge''" by simp
  from e show ?thesis
  proof (cases rule: editor_edge_cases)
    case made
    from e' show ?thesis
    proof (cases rule: editor_edge_cases)
      case m': made
      from eq made(4) m'(4) have
        "source e' @ orEmpty (sourceHandle e') @ CHR ''-'' # (target e' @ orEmpty (targetHandle e')) =
         source e @ orEmpty (sourceHandle e) @ CHR ''-'' # (target e @ orEmpty (targetHandle e))"
        by simp
      from src_parse[OF m'(1) made(1) m'(5) made(5) this]
      have s: "source e' = source e"
        and t: "target e' @ orEmpty (targetHandle e') = target e @ orEmpty (targetHandle e)" by simp_all
      from tgt_parse[OF m'(2) made(2) m'(6) made(6) t] s show ?thesis by simp
    next
      case s': synthesized
      from eq made(4) s'(3) have
        "source e' @ CHR ''-'' # (CHR ''>'' # target e') =
         ''reactflow__edge'' @ CHR ''-'' #
           (source e @ orEmpty (sourceHandle e) @ CHR ''-'' # (target e @ orEmpty (targetHandle e)))"
        by simp
      from split_at[OF _ ne this] s'(1) have
        "CHR ''>'' # target e' =
           source e @ orEmpty (sourceHandle e) @ CHR ''-'' # (target e @ orEmpty (targetHandle e))"
        by (simp add: plain_def)
      with made(1,3) show ?thesis by (cases "source e") (auto simp: plain_def)
    qed
  next
    case synthesized
    from e' show ?thesis
    proof (cases rule: editor_edge_cases)
      case m': made
      from eq synthesized(3) m'(4) have
        "source e @ CHR ''-'' # (CHR ''>'' # target e) =
         ''reactflow__edge'' @ CHR ''-'' #
           (source e' @ orEmpty (sourceHandle e') @ CHR ''-'' # (target e' @ orEmpty (targetHandle e')))"
        by simp
      from split_at[OF _ ne this] synthesized(1) have
        "CHR ''>'' # target e =
           source e' @ orEmpty (sourceHandle e') @ CHR ''-'' # (target e' @ orEmpty (targetHandle e'))"
        by (simp add: plain_def)
      with m'(1,3) show ?thesis by (cases "source e'") (auto simp: plain_def)
    next
      case s': synthesized
      from eq synthesized(3) s'(3) have
        "source e' @ CHR ''-'' # (CHR ''>'' # target e') = source e @ CHR ''-'' # (CHR ''>'' # target e)"
        by simp
      from split_at[OF _ _ this] synthesized(1) s'(1) show ?thesis by (simp add: plain_def)
    qed
  qed
qed

lemma editor_edge_not_proto: "editor_edge e \<Longrightarrow> edge_id e \<notin> set objectPrototypeKeys"
  by (cases e rule: editor_edge_cases) (auto intro!: hyphen_not_proto)

lemma editor_edges_identified: "\<forall>e\<in>set E. editor_edge e \<Longrightarrow> identified E"
  unfolding identified_def using editor_edge_same_id editor_edge_not_proto by blast

lemma editor_edges_service_ports: "\<forall>e\<in>set E. editor_edge e \<Longrightarrow> service_ports E M"
  unfolding service_ports_def
proof (intro ballI conjI impI)
  fix e assume a: "\<forall>e\<in>set E. editor_edge e" and e: "e \<in> set E"
  then have ee: "editor_edge e" by blast
  {
    assume h: "targetHandle e = Str (beforeHandle M)"
    from ee show "target e = SERVICE_ID"
    proof (cases rule: editor_edge_cases)
      case made
      with h show ?thesis by (auto simp: in_handle_def beforeHandle_def split: if_splits)
    next
      case synthesized
      with h show ?thesis by simp
    qed
  }
  {
    assume h: "sourceHandle e = Str (afterHandle M)"
    from ee show "source e = SERVICE_ID"
    proof (cases rule: editor_edge_cases)
      case made
      with h show ?thesis by (auto simp: out_handle_def afterHandle_def split: if_splits)
    next
      case synthesized
      with h show ?thesis by simp
    qed
  }
qed


lemma editor_edges_addEdge:
  assumes "wired c" and "\<forall>e\<in>set E. editor_edge e"
  shows "\<forall>e\<in>set (addEdge c E). editor_edge e"
proof (cases "conn_source c"; cases "conn_target c")
  fix s t assume st: "conn_source c = Some s" "conn_target c = Some t"
  let ?new = "\<lparr>edge_id = getEdgeId s (conn_sourceHandle c) t (conn_targetHandle c),
                source = s, target = t,
                sourceHandle = conn_sourceHandle c, targetHandle = conn_targetHandle c\<rparr>"
  have "s \<noteq> [] \<Longrightarrow> editor_edge ?new"
    using assms(1) st by (simp add: wired_def editor_edge_def)
  moreover have "set (addEdge c E) \<subseteq> set E \<union> (if s = [] then {} else {?new})"
    using st by (auto simp: addEdge_def Let_def)
  ultimately show ?thesis using assms(2) by (auto split: if_splits)
qed (use assms in \<open>simp_all add: addEdge_def\<close>)

lemma editor_edges_onConnect:
  assumes "wired c" and "\<forall>e\<in>set E. editor_edge e"
  shows "\<forall>e\<in>set (onConnect c E). editor_edge e"
  unfolding onConnect_def by (rule editor_edges_addEdge[OF assms(1)]) (use assms(2) in simp)

lemma editor_edges_deleteStep:
  assumes N: "\<forall>n\<in>set N. plain (node_id n)" and acc: "\<forall>x\<in>set acc. editor_edge (snd x)"
  shows "\<forall>x\<in>set (deleteStep N E acc node). editor_edge (snd x)"
proof -
  have "editor_edge e" if "e \<in> set (createdEdges (getIncomers node N E) (getOutgoers node N E))" for e
  proof -
    from that obtain i out where "i \<in> set N" "out \<in> set N" "e = createdEdge (node_id i) (node_id out)"
      by (auto simp: createdEdges_def getIncomers_def getOutgoers_def)
    with N show ?thesis by (simp add: editor_edge_def createdEdge_def)
  qed
  with acc show ?thesis by (auto simp: deleteStep_def Let_def)
qed

lemma editor_edges_foldl:
  assumes N: "\<forall>n\<in>set N. plain (node_id n)"
  shows "\<forall>x\<in>set acc. editor_edge (snd x) \<Longrightarrow>
         \<forall>x\<in>set (foldl (deleteStep N E) acc ds). editor_edge (snd x)"
proof (induction ds arbitrary: acc)
  case Nil
  then show ?case by simp
next
  case (Cons d ds)
  from Cons.IH[OF editor_edges_deleteStep[OF N Cons.prems]] show ?case by simp
qed

lemma editor_edges_onNodesDelete:
  assumes "\<forall>n\<in>set N. plain (node_id n)" and "\<forall>e\<in>set E. editor_edge e"
  shows "\<forall>e\<in>set (onNodesDelete ds N E). editor_edge e"
proof -
  from assms(2) have "\<forall>x\<in>set (map (Pair True) E). editor_edge (snd x)" by simp
  from editor_edges_foldl[OF assms(1) this] show ?thesis by (simp add: onNodesDelete_def)
qed

lemma editor_graph_structural:
  assumes "editor_op op" and "editor_graph (st_nodes st) (st_edges st)"
  shows "editor_graph (st_nodes (structural op st)) (st_edges (structural op st))"
proof (cases op)
  case (Connect c)
  with assms editor_edges_onConnect[of c "st_edges st"] show ?thesis by (simp add: editor_graph_def)
next
  case (AddHook h r)
  with assms show ?thesis by (simp add: editor_graph_def addHook_def)
next
  case (DeleteNodes ds)
  with assms editor_edges_onNodesDelete[of "st_nodes st" "st_edges st" ds] show ?thesis
    by (simp add: editor_graph_def removeNodes_def)
qed

lemma editor_graph_applyOps:
  "\<forall>op\<in>set ops. editor_op op \<Longrightarrow> editor_graph (st_nodes st) (st_edges st) \<Longrightarrow>
   editor_graph (st_nodes (applyOps MS st ops)) (st_edges (applyOps MS st ops))"
proof (induction ops arbitrary: st)
  case Nil
  then show ?case by (simp add: applyOps_def)
next
  case (Cons op ops)
  from Cons.prems have "editor_graph (st_nodes (applyOp MS st op)) (st_edges (applyOp MS st op))"
    using editor_graph_structural[of op st]
    by (simp add: applyOp_def st_nodes_resolveEffect st_edges_resolveEffect)
  from Cons.IH[OF _ this] Cons.prems(1) show ?case by (simp add: applyOps_def)
qed

lemma editor_graphs_well_formed:
  assumes "\<forall>op\<in>set ops. editor_op op"
  shows "identified (st_edges (applyOps MS initialState ops))"
    and "service_ports (st_edges (applyOps MS initialState ops)) M"
proof -
  have "editor_graph (st_nodes initialState) (st_edges initialState)"
    by (simp add: editor_graph_def initialState_def initialNodes_def SERVICE_ID_def plain_def)
  from editor_graph_applyOps[OF assms this, of MS]
  have "\<forall>e\<in>set (st_edges (applyOps MS initialState ops)). editor_edge e"
    by (simp add: editor_graph_def)
  then show "identified (st_edges (applyOps MS initialState ops))"
    and "service_ports (st_edges (applyOps MS initialState ops)) M"
    by (rule editor_edges_identified, rule editor_edges_service_ports)
qed

text \<open>The operations that build the graph with two edges into \<open>a\<close> are of this kind.\<close>

lemma fanin_ops_editor: "\<forall>op\<in>set fanin_ops. editor_op op"
  by (simp add: fanin_ops_def connectionOf_def wired_def plain_def out_handle_def in_handle_def
      SERVICE_ID_def beforeHandle_def)

end
